theory Spec2Isabelle
  imports Complex_Main
begin

section \<open>The actor-critic model of 11\_A3C\_v2.py\<close>

text \<open>
  The program is a Python script built on a tensor library. Its own code is the
  trajectory buffer of class \<open>ActorCritic\<close>, the return and loss computations
  \<open>calc_R\<close> and \<open>calc_loss\<close>, and the worker loop \<open>Agent.run\<close>.
  Python exceptions are values of type \<open>error\<close>.
\<close>

datatype error = IndexError | ValueError | RuntimeError

subsection \<open>Numbers\<close>

text \<open>
  Rewards, the discount factor, logits and probabilities are modelled as
  \<^typ>\<open>real\<close>: finite numbers, without the rounding of machine floats. What
  the value head of a network returns need not be finite, and the returns and the
  loss computed from it neither: these are values of \<open>fval\<close>, a finite number or
  one of the three other values of a float, with the arithmetic of floats on
  those (infinity times zero and infinity minus infinity are not numbers, and
  what is not a number stays so).
\<close>

datatype fval = Fin real | PInf | NInf | NaN

instantiation fval :: "{zero, one, plus, times, uminus, minus}"
begin

definition zero_fval :: fval where
  "zero_fval = Fin 0"

definition one_fval :: fval where
  "one_fval = Fin 1"

fun plus_fval :: "fval \<Rightarrow> fval \<Rightarrow> fval" where
  "plus_fval (Fin x) (Fin y) = Fin (x + y)"
| "plus_fval NaN b = NaN"
| "plus_fval a NaN = NaN"
| "plus_fval PInf NInf = NaN"
| "plus_fval NInf PInf = NaN"
| "plus_fval PInf b = PInf"
| "plus_fval a PInf = PInf"
| "plus_fval NInf b = NInf"
| "plus_fval a NInf = NInf"

fun times_fval :: "fval \<Rightarrow> fval \<Rightarrow> fval" where
  "times_fval (Fin x) (Fin y) = Fin (x * y)"
| "times_fval NaN b = NaN"
| "times_fval a NaN = NaN"
| "times_fval (Fin x) PInf = (if x = 0 then NaN else if 0 < x then PInf else NInf)"
| "times_fval (Fin x) NInf = (if x = 0 then NaN else if 0 < x then NInf else PInf)"
| "times_fval PInf (Fin y) = (if y = 0 then NaN else if 0 < y then PInf else NInf)"
| "times_fval NInf (Fin y) = (if y = 0 then NaN else if 0 < y then NInf else PInf)"
| "times_fval PInf PInf = PInf"
| "times_fval PInf NInf = NInf"
| "times_fval NInf PInf = NInf"
| "times_fval NInf NInf = PInf"

fun uminus_fval :: "fval \<Rightarrow> fval" where
  "uminus_fval (Fin x) = Fin (- x)"
| "uminus_fval PInf = NInf"
| "uminus_fval NInf = PInf"
| "uminus_fval NaN = NaN"

definition minus_fval :: "fval \<Rightarrow> fval \<Rightarrow> fval" where
  "minus_fval a b = a + - b"

instance ..

end

instance fval :: comm_monoid_add
proof
  fix u v w :: fval
  show "0 + u = u"
    by (cases u) (simp_all add: zero_fval_def)
  show "u + v = v + u"
    by (cases u; cases v) simp_all
  show "u + v + w = u + (v + w)"
    by (cases u; cases v; cases w) simp_all
qed

instance fval :: comm_monoid_mult
proof
  fix u v w :: fval
  show "1 * u = u"
    by (cases u) (simp_all add: one_fval_def)
  show "u * v = v * u"
    by (cases u; cases v) (simp_all add: mult.commute)
  show "u * v * w = u * (v * w)"
    by (cases u; cases v; cases w) (auto simp: zero_less_mult_iff mult_less_0_iff not_less)
qed

subsection \<open>The model and the library\<close>

text \<open>
  A parameter tensor of a network: its data and its gradient slot. The slot holds
  a reference to a gradient tensor (an address of the tensor store), or nothing,
  so that the assignment \<open>global_param._grad = local_param.grad\<close> of the worker
  shares the tensor as it does in Python.
\<close>

record 't param =
  data :: 't
  grad :: "nat option"

text \<open>
  The fields of \<open>ActorCritic\<close>: the discount factor, the parameters of the four
  linear layers (one list, as \<open>parameters()\<close> yields them), and the four
  accumulators.
\<close>

record ('t, 's) actor_critic =
  gamma :: real
  parameters :: "'t param list"
  rewards :: "real list"
  actions :: "nat list"
  states :: "'s list"
  next_states :: "'s list"

text \<open>
  What the script builds on. \<open>forward\<close> composes linear layers and rectifiers of
  the tensor library into the policy logits and the state value; what the layers
  compute on one state plays no part below, so the field \<open>forward\<close> is a function
  of the parameters and one state, and the pass over a batch is \<open>forward_batch\<close>
  below. The gradient machinery and the optimizer of the library act on the
  parameters and on a tensor store \<open>'h\<close>; the sampler of the categorical
  distribution and the environment act on a world state \<open>'w\<close>.
\<close>

record ('t, 'h, 's, 'w) lib =
  forward :: "'t param list \<Rightarrow> 's \<Rightarrow> real list \<times> fval"
  zero_grad :: "'t param list \<Rightarrow> 'h \<Rightarrow> 't param list \<times> 'h"
  backward :: "('t, 's) actor_critic \<Rightarrow> bool \<Rightarrow> 'h \<Rightarrow> 't param list \<times> 'h"
  optimizer_step :: "'t param list \<Rightarrow> 'h \<Rightarrow> 't param list \<times> 'h"
  sample :: "real list \<Rightarrow> 'w \<Rightarrow> nat \<times> 'w"
  env_reset :: "'w \<Rightarrow> 's \<times> 'w"
  env_step :: "nat \<Rightarrow> 'w \<Rightarrow> ('s \<times> real \<times> bool) \<times> 'w"

definition N_GAMES :: int where
  "N_GAMES = 4000"

definition T_MAX :: int where
  "T_MAX = 5"

subsection \<open>The trajectory buffer\<close>

definition init_actor_critic :: "real \<Rightarrow> 't param list \<Rightarrow> ('t, 's) actor_critic" where
  "init_actor_critic g ps =
     \<lparr>gamma = g, parameters = ps, rewards = [], actions = [], states = [], next_states = []\<rparr>"

definition remember ::
  "('t, 's) actor_critic \<Rightarrow> 's \<Rightarrow> nat \<Rightarrow> real \<Rightarrow> 's \<Rightarrow> ('t, 's) actor_critic" where
  "remember m state action reward next_state =
     m\<lparr>states := states m @ [state],
       actions := actions m @ [action],
       rewards := rewards m @ [reward],
       next_states := next_states m @ [next_state]\<rparr>"

definition clear_memory :: "('t, 's) actor_critic \<Rightarrow> ('t, 's) actor_critic" where
  "clear_memory m = m\<lparr>states := [], actions := [], rewards := [], next_states := []\<rparr>"

text \<open>The buffers a model can hold: those built from the constructor by the two methods.\<close>

inductive buffer_reachable :: "('t, 's) actor_critic \<Rightarrow> bool" where
  br_init: "buffer_reachable (init_actor_critic g ps)"
| br_remember: "buffer_reachable m \<Longrightarrow> buffer_reachable (remember m s a r s')"
| br_clear: "buffer_reachable m \<Longrightarrow> buffer_reachable (clear_memory m)"

subsection \<open>Returns\<close>

text \<open>Python's \<open>xs[-1]\<close>: the last element, an \<open>IndexError\<close> on the empty sequence.\<close>

definition last_elem :: "'a list \<Rightarrow> error + 'a" where
  "last_elem xs = (if xs = [] then Inl IndexError else Inr (last xs))"

text \<open>
  The forward pass over a batch, \<open>self.forward(T.tensor(xs, dtype=T.float))\<close>:
  one row of logits and one value per entry. The tensor of the empty list has
  shape \<open>(0,)\<close>, which the first linear layer rejects with a \<open>RuntimeError\<close>.
\<close>

definition forward_batch ::
  "('t, 'h, 's, 'w) lib \<Rightarrow> 't param list \<Rightarrow> 's list \<Rightarrow> error + (real list \<times> fval) list" where
  "forward_batch L ps xs = (if xs = [] then Inl RuntimeError else Inr (map (forward L ps) xs))"

text \<open>
  Lines 88 and 94: the value estimates of the buffered next states, and
  \<open>R = v_next[-1] * (1 - int(done))\<close>, a product of floats.
\<close>

definition bootstrap ::
  "('t, 'h, 's, 'w) lib \<Rightarrow> ('t, 's) actor_critic \<Rightarrow> bool \<Rightarrow> error + fval" where
  "bootstrap L m done =
     (case forward_batch L (parameters m) (next_states m) of
        Inl e \<Rightarrow> Inl e
      | Inr pv_next \<Rightarrow>
          (let v_next = map snd pv_next
           in case last_elem v_next of
                Inl e \<Rightarrow> Inl e
              | Inr vl \<Rightarrow> Inr (vl * Fin (1 - (if done then 1 else 0)))))"

text \<open>
  The loop of lines 98 to 100 over the reversed rewards, with the running return
  \<open>R\<close> and the list \<open>batch_return\<close> it appends to.
\<close>

fun scan_returns :: "real \<Rightarrow> fval \<Rightarrow> fval list \<Rightarrow> real list \<Rightarrow> fval list" where
  "scan_returns g R batch_return [] = batch_return"
| "scan_returns g R batch_return (reward # rest) =
     (let R' = Fin reward + Fin g * R in scan_returns g R' (batch_return @ [R']) rest)"

text \<open>
  \<open>calc_R\<close>: the forward pass over the buffered states of line 87, whose result
  is not used, then the bootstrap and the scan.
\<close>

definition calc_R ::
  "('t, 'h, 's, 'w) lib \<Rightarrow> ('t, 's) actor_critic \<Rightarrow> bool \<Rightarrow> error + fval list" where
  "calc_R L m done =
     (case forward_batch L (parameters m) (states m) of
        Inl e \<Rightarrow> Inl e
      | Inr pv \<Rightarrow>
          (case bootstrap L m done of
             Inl e \<Rightarrow> Inl e
           | Inr R \<Rightarrow> Inr (rev (scan_returns (gamma m) R [] (rev (rewards m))))))"

subsection \<open>Loss\<close>

text \<open>\<open>T.softmax\<close> over the logits of one state.\<close>

definition softmax :: "real list \<Rightarrow> real list" where
  "softmax xs = map (\<lambda>x. exp x / sum_list (map exp xs)) xs"

text \<open>
  \<open>Categorical(probs).log_prob\<close>: the distribution normalises its argument and
  takes the logarithm of the probabilities clamped to \<open>[eps, 1 - eps]\<close>, where
  \<open>eps\<close> is the machine epsilon of 32-bit floats; an action outside the support
  \<open>0 .. n - 1\<close> is rejected with a \<open>ValueError\<close>.
\<close>

definition eps32 :: real where
  "eps32 = 1 / 2 ^ 23"

definition clamp_probs :: "real \<Rightarrow> real" where
  "clamp_probs p = min (max p eps32) (1 - eps32)"

definition log_prob :: "real list \<Rightarrow> nat \<Rightarrow> error + real" where
  "log_prob probs a =
     (if a < length probs then Inr (ln (clamp_probs (probs ! a / sum_list probs)))
      else Inl ValueError)"

text \<open>
  Elementwise operations on two one-dimensional tensors pair their entries; a
  tensor of one entry is repeated to the length of the other, and any other
  difference of lengths is an error of the library.
\<close>

definition broadcast :: "'a list \<Rightarrow> 'b list \<Rightarrow> error + ('a \<times> 'b) list" where
  "broadcast xs ys =
     (if length xs = length ys then Inr (zip xs ys)
      else if length ys = 1 then Inr (map (\<lambda>x. (x, hd ys)) xs)
      else if length xs = 1 then Inr (map (\<lambda>y. (hd xs, y)) ys)
      else Inl RuntimeError)"

text \<open>\<open>dist.log_prob(actions)\<close> on the batch: the first action outside the support raises.\<close>

fun log_prob_rows :: "(real list \<times> nat) list \<Rightarrow> error + real list" where
  "log_prob_rows [] = Inr []"
| "log_prob_rows ((p, a) # rest) =
     (case log_prob p a of
        Inl e \<Rightarrow> Inl e
      | Inr l \<Rightarrow> (case log_prob_rows rest of Inl e \<Rightarrow> Inl e | Inr ls \<Rightarrow> Inr (l # ls)))"

definition log_probs :: "real list list \<Rightarrow> nat list \<Rightarrow> error + real list" where
  "log_probs probs as =
     (case broadcast probs as of Inl e \<Rightarrow> Inl ValueError | Inr rows \<Rightarrow> log_prob_rows rows)"

text \<open>The mean of a tensor: its sum over its length, not a number on the empty tensor.\<close>

definition mean :: "fval list \<Rightarrow> fval" where
  "mean xs = (if xs = [] then NaN else sum_list xs * Fin (1 / real (length xs)))"

text \<open>
  \<open>calc_loss\<close>, lines 107 to 123: the returns, the forward pass over the buffered
  states, and the elementwise losses.
\<close>

definition calc_loss ::
  "('t, 'h, 's, 'w) lib \<Rightarrow> ('t, 's) actor_critic \<Rightarrow> bool \<Rightarrow> error + fval" where
  "calc_loss L m done =
     (case calc_R L m done of
        Inl e \<Rightarrow> Inl e
      | Inr returns \<Rightarrow>
          (case forward_batch L (parameters m) (states m) of
             Inl e \<Rightarrow> Inl e
           | Inr pv \<Rightarrow>
               (let pi = map fst pv;
                    values = map snd pv
                in case broadcast returns values of
                     Inl e \<Rightarrow> Inl e
                   | Inr rv \<Rightarrow>
                       (let critic_loss = map (\<lambda>(r, v). (r - v)\<^sup>2) rv;
                            probs = map softmax pi
                        in case log_probs probs (actions m) of
                             Inl e \<Rightarrow> Inl e
                           | Inr lps \<Rightarrow>
                               (case broadcast lps (map (\<lambda>(r, v). r - v) rv) of
                                  Inl e \<Rightarrow> Inl e
                                | Inr la \<Rightarrow>
                                    (let actor_loss = map (\<lambda>(l, d). - Fin l * d) la
                                     in case broadcast critic_loss actor_loss of
                                          Inl e \<Rightarrow> Inl e
                                        | Inr ca \<Rightarrow>
                                            Inr (mean (map (\<lambda>(c, a). c + a) ca))))))))"

text \<open>
  \<open>choose_action\<close>: the logits of one state, normalised, and one draw from the
  categorical distribution.
\<close>

definition choose_action ::
  "('t, 'h, 's, 'w) lib \<Rightarrow> ('t, 's) actor_critic \<Rightarrow> 's \<Rightarrow> 'w \<Rightarrow> nat \<times> 'w" where
  "choose_action L m state w =
     (let (pi, v) = forward L (parameters m) state;
          probs = softmax pi
      in sample L probs w)"

section \<open>The worker\<close>

text \<open>
  \<open>Agent.run\<close> is a loop over episodes around a loop over environment steps. It
  is modelled as a machine whose control points are the two loop heads, the test
  of line 165 after a transition has been buffered, the exit of the outer loop,
  and the end of the process by an exception.
\<close>

datatype pc = While_games | While_not_done | Sync_test | Exited | Raised error

text \<open>
  The state of a worker: its own model, the shared model and the tensor store
  with the optimizer state, the world, the shared episode counter, the reward log
  of the process (the global \<open>rewards\<close>), and the local variables of \<open>run\<close>.
\<close>

record ('t, 'h, 's, 'w) agent =
  pc :: pc
  local_actor_critic :: "('t, 's) actor_critic"
  global_actor_critic :: "('t, 's) actor_critic"
  store :: 'h
  world :: 'w
  episode_idx :: int
  rewards_log :: "real list"
  t_step :: int
  ep_done :: bool
  state :: 's
  next_state :: 's
  score :: real

text \<open>
  The counter is a C \<open>int\<close> in shared memory (\<open>mp.Value('i', 0)\<close>): a value
  written to it is reduced to 32 bits, two's complement.
\<close>

definition wrap32 :: "int \<Rightarrow> int" where
  "wrap32 x = (x + 2 ^ 31) mod 2 ^ 32 - 2 ^ 31"

subsection \<open>The synchronization point\<close>

text \<open>
  Lines 171 to 173: the loop over \<open>zip(local parameters, global parameters)\<close>
  assigning \<open>global_param._grad = local_param.grad\<close>. The zip ends with the
  shorter list; further global parameters keep their slots.
\<close>

fun push_grads :: "'t param list \<Rightarrow> 't param list \<Rightarrow> 't param list" where
  "push_grads [] gs = gs"
| "push_grads ls [] = []"
| "push_grads (local_param # ls) (global_param # gs) =
     global_param\<lparr>grad := grad local_param\<rparr> # push_grads ls gs"

definition state_dict :: "('t, 's) actor_critic \<Rightarrow> 't list" where
  "state_dict m = map data (parameters m)"

text \<open>
  \<open>load_state_dict\<close> copies the data of every entry into the parameter of the
  same name and refuses a dictionary with other names; with the names fixed by the
  class, that is a dictionary of another length.
\<close>

definition load_state_dict ::
  "('t, 's) actor_critic \<Rightarrow> 't list \<Rightarrow> error + ('t, 's) actor_critic" where
  "load_state_dict m sd =
     (if length sd = length (parameters m)
      then Inr (m\<lparr>parameters := map2 (\<lambda>p d. p\<lparr>data := d\<rparr>) (parameters m) sd\<rparr>)
      else Inl RuntimeError)"

text \<open>
  Lines 166 to 182. The optimizer is the one built over the parameters of the
  shared model, so \<open>zero_grad\<close> and \<open>step\<close> act on those.
\<close>

definition sync ::
  "('t, 'h, 's, 'w) lib \<Rightarrow> ('t, 'h, 's, 'w) agent \<Rightarrow> error + ('t, 'h, 's, 'w) agent" where
  "sync L a =
     (case calc_loss L (local_actor_critic a) (ep_done a) of
        Inl e \<Rightarrow> Inl e
      | Inr loss \<Rightarrow>
          (let (gp0, h1) = zero_grad L (parameters (global_actor_critic a)) (store a);
               (lp, h2) = backward L (local_actor_critic a) (ep_done a) h1;
               gp1 = push_grads lp gp0;
               (gp2, h3) = optimizer_step L gp1 h2;
               g = (global_actor_critic a)\<lparr>parameters := gp2\<rparr>
           in case load_state_dict ((local_actor_critic a)\<lparr>parameters := lp\<rparr>) (state_dict g) of
                Inl e \<Rightarrow> Inl e
              | Inr l \<Rightarrow>
                  Inr (a\<lparr>local_actor_critic := clear_memory l,
                         global_actor_critic := g, store := h3\<rparr>)))"

subsection \<open>The loop\<close>

text \<open>
  One move of the worker from a control point to the next. \<open>limit\<close> is the bound
  the counter is compared with, \<open>N_GAMES\<close> in the script. The increment of
  lines 187 and 188 is taken under the counter's lock and is one move. The
  \<open>print\<close> of line 190 and the plot after the loop change no variable and are
  left out.
\<close>

definition step ::
  "('t, 'h, 's, 'w) lib \<Rightarrow> int \<Rightarrow> ('t, 'h, 's, 'w) agent \<Rightarrow> ('t, 'h, 's, 'w) agent" where
  "step L limit a =
     (case pc a of
        While_games \<Rightarrow>
          (if episode_idx a < limit
           then (let (s, w) = env_reset L (world a)
                 in a\<lparr>ep_done := False, state := s, world := w, score := 0,
                      local_actor_critic := clear_memory (local_actor_critic a),
                      pc := While_not_done\<rparr>)
           else a\<lparr>pc := Exited\<rparr>)
      | While_not_done \<Rightarrow>
          (if \<not> ep_done a
           then (let (action, w1) = choose_action L (local_actor_critic a) (state a) (world a);
                     ((ns, reward, d), w2) = env_step L action w1
                 in a\<lparr>world := w2, next_state := ns, ep_done := d, score := score a + reward,
                      local_actor_critic := remember (local_actor_critic a) (state a) action reward ns,
                      pc := Sync_test\<rparr>)
           else a\<lparr>episode_idx := wrap32 (episode_idx a + 1),
                  rewards_log := rewards_log a @ [score a],
                  pc := While_games\<rparr>)
      | Sync_test \<Rightarrow>
          (case (if t_step a mod T_MAX = 0 \<or> ep_done a then sync L a else Inr a) of
             Inl e \<Rightarrow> a\<lparr>pc := Raised e\<rparr>
           | Inr a' \<Rightarrow> a'\<lparr>t_step := t_step a' + 1, state := next_state a', pc := While_not_done\<rparr>)
      | Exited \<Rightarrow> a
      | Raised e \<Rightarrow> a)"

text \<open>
  The other workers, between two moves of this one: they add \<open>k\<close> increments to
  the counter, each under the lock, and change the shared model and the tensor
  store in any way \<open>f\<close>.
\<close>

definition interfere ::
  "nat \<Rightarrow> (('t, 's) actor_critic \<times> 'h \<Rightarrow> ('t, 's) actor_critic \<times> 'h) \<Rightarrow>
   ('t, 'h, 's, 'w) agent \<Rightarrow> ('t, 'h, 's, 'w) agent" where
  "interfere k f a =
     (let (g, h) = f (global_actor_critic a, store a)
      in a\<lparr>episode_idx := wrap32 (episode_idx a + int k), global_actor_critic := g, store := h\<rparr>)"


text \<open>A worker alone: \<open>n\<close> moves with nothing in between.\<close>

fun run_steps ::
  "('t, 'h, 's, 'w) lib \<Rightarrow> int \<Rightarrow> nat \<Rightarrow> ('t, 'h, 's, 'w) agent \<Rightarrow> ('t, 'h, 's, 'w) agent" where
  "run_steps L limit 0 a = a"
| "run_steps L limit (Suc n) a = run_steps L limit n (step L limit a)"

text \<open>The worker as \<open>Agent.__init__\<close> and the first line of \<open>run\<close> leave it.\<close>

definition initial :: "('t, 'h, 's, 'w) agent \<Rightarrow> bool" where
  "initial a \<longleftrightarrow>
     pc a = While_games \<and> t_step a = 1 \<and>
     rewards (local_actor_critic a) = [] \<and> actions (local_actor_critic a) = [] \<and>
     states (local_actor_critic a) = [] \<and> next_states (local_actor_critic a) = []"

text \<open>
  The configurations a worker passes through from \<open>a0\<close>, by its own moves and the
  others' interference. The index counts the transitions the worker has buffered
  since the current episode began; it is a device of the statement, not a
  variable of the program.
\<close>

definition ep_steps_after :: "('t, 'h, 's, 'w) agent \<Rightarrow> nat \<Rightarrow> nat" where
  "ep_steps_after a n =
     (case pc a of
        While_games \<Rightarrow> 0
      | While_not_done \<Rightarrow> (if ep_done a then n else Suc n)
      | _ \<Rightarrow> n)"

inductive reaches ::
  "('t, 'h, 's, 'w) lib \<Rightarrow> int \<Rightarrow> ('t, 'h, 's, 'w) agent \<Rightarrow> nat \<Rightarrow> ('t, 'h, 's, 'w) agent \<Rightarrow> bool"
  for L :: "('t, 'h, 's, 'w) lib" and limit :: int and a0 :: "('t, 'h, 's, 'w) agent" where
  reaches_start: "reaches L limit a0 0 a0"
| reaches_step: "reaches L limit a0 n a \<Longrightarrow> reaches L limit a0 (ep_steps_after a n) (step L limit a)"
| reaches_interfere: "reaches L limit a0 n a \<Longrightarrow> reaches L limit a0 n (interfere k f a)"




text \<open>The index of \<open>reaches\<close> along \<open>k\<close> moves of a worker alone.\<close>

fun count_steps ::
  "('t, 'h, 's, 'w) lib \<Rightarrow> int \<Rightarrow> nat \<Rightarrow> ('t, 'h, 's, 'w) agent \<Rightarrow> nat \<Rightarrow> nat" where
  "count_steps L limit 0 a n = n"
| "count_steps L limit (Suc k) a n = count_steps L limit k (step L limit a) (ep_steps_after a n)"

text \<open>
  The four sequences of a buffer have one length, and that length is tied to the
  step counter: at the head of the inner loop the buffer holds the transitions
  since the last multiple of \<open>T_MAX\<close>, or all \<open>n\<close> of the episode so far, and
  one more at the test of line 165.
\<close>

definition buffers_equal :: "('t, 's) actor_critic \<Rightarrow> bool" where
  "buffers_equal m \<longleftrightarrow>
     length (actions m) = length (states m) \<and> length (rewards m) = length (states m) \<and>
     length (next_states m) = length (states m)"

definition segment_inv :: "nat \<Rightarrow> ('t, 'h, 's, 'w) agent \<Rightarrow> bool" where
  "segment_inv n a \<longleftrightarrow>
     1 \<le> t_step a \<and> buffers_equal (local_actor_critic a) \<and>
     (let len = int (length (states (local_actor_critic a))); r = (t_step a - 1) mod 5
      in case pc a of
           While_games \<Rightarrow> len \<le> 4
         | While_not_done \<Rightarrow> (ep_done a \<and> len = 0) \<or> (len \<le> r \<and> (len = r \<or> len = int n))
         | Sync_test \<Rightarrow> 1 \<le> len \<and> len \<le> r + 1 \<and> (len = r + 1 \<or> len = int n)
         | Exited \<Rightarrow> len \<le> 4
         | Raised e \<Rightarrow> len \<le> 5)"

section \<open>The counter under concurrent workers\<close>

text \<open>
  Lines 187 and 188, \<open>with self.episode_idx.get_lock(): self.episode_idx.value += 1\<close>,
  in workers that run in parallel. A worker acquires the lock, which it can only
  when no worker holds it; reads the counter; writes what it read plus one; and
  releases the lock. These are four moves, and moves of different workers
  interleave in any order. A worker has \<open>todo\<close> increments still to issue, one
  per episode it finishes.
\<close>

datatype lpc = Acquire | Read | Write int | Release

record incrementer =
  lpc :: lpc
  todo :: nat

record shared =
  counter :: int
  lock :: "nat option"
  workers :: "incrementer list"

text \<open>
  The move of worker \<open>i\<close>. A worker that waits for the lock, or has nothing left
  to do, does not move. With \<open>with_lock\<close> false the acquisition never waits: that
  is not the script, and serves to show what the lock is for.
\<close>

definition inc_step :: "bool \<Rightarrow> nat \<Rightarrow> shared \<Rightarrow> shared" where
  "inc_step with_lock i s =
     (if i < length (workers s)
      then (let w = workers s ! i
            in case lpc w of
                 Acquire \<Rightarrow>
                   (if todo w = 0 \<or> (with_lock \<and> lock s \<noteq> None) then s
                    else s\<lparr>lock := Some i, workers := (workers s)[i := w\<lparr>lpc := Read\<rparr>]\<rparr>)
               | Read \<Rightarrow> s\<lparr>workers := (workers s)[i := w\<lparr>lpc := Write (counter s)\<rparr>]\<rparr>
               | Write v \<Rightarrow>
                   s\<lparr>counter := wrap32 (v + 1), workers := (workers s)[i := w\<lparr>lpc := Release\<rparr>]\<rparr>
               | Release \<Rightarrow>
                   s\<lparr>lock := None,
                     workers := (workers s)[i := w\<lparr>lpc := Acquire, todo := todo w - 1\<rparr>]\<rparr>)
      else s)"

text \<open>A schedule names the worker that moves next.\<close>

fun run_sched :: "bool \<Rightarrow> nat list \<Rightarrow> shared \<Rightarrow> shared" where
  "run_sched with_lock [] s = s"
| "run_sched with_lock (i # sched) s = run_sched with_lock sched (inc_step with_lock i s)"

definition start :: "int \<Rightarrow> nat list \<Rightarrow> shared" where
  "start c0 ks = \<lparr>counter = c0, lock = None, workers = map (\<lambda>k. \<lparr>lpc = Acquire, todo = k\<rparr>) ks\<rparr>"

definition all_done :: "shared \<Rightarrow> bool" where
  "all_done s = list_all (\<lambda>w. lpc w = Acquire \<and> todo w = 0) (workers s)"

text \<open>
  The increments a worker has still to write, and what holds of every state
  reached from \<open>start c0 ks\<close> with the lock: only the holder of the lock is past
  the acquisition, what it read is still the counter, and the counter and the
  pending increments add up to the total.
\<close>

definition pending :: "incrementer \<Rightarrow> nat" where
  "pending w = (case lpc w of Release \<Rightarrow> todo w - 1 | _ \<Rightarrow> todo w)"

definition lock_inv :: "int \<Rightarrow> nat \<Rightarrow> shared \<Rightarrow> bool" where
  "lock_inv c0 tot s \<longleftrightarrow>
     (\<forall>i < length (workers s). lpc (workers s ! i) \<noteq> Acquire \<longrightarrow>
        lock s = Some i \<and> 0 < todo (workers s ! i)) \<and>
     (\<forall>i. lock s = Some i \<longrightarrow> i < length (workers s) \<and> lpc (workers s ! i) \<noteq> Acquire) \<and>
     (\<forall>i < length (workers s). \<forall>v. lpc (workers s ! i) = Write v \<longrightarrow> v = counter s) \<and>
     counter s + int (sum_list (map pending (workers s))) = c0 + int tot"

section \<open>The specification's words\<close>

text \<open>
  The returns as the specification words them: \<open>R_t = reward_t + gamma * R_{t+1}\<close>,
  with the bootstrap in the place of the return after the last reward.
\<close>

fun discounted_returns :: "real \<Rightarrow> fval \<Rightarrow> real list \<Rightarrow> fval list" where
  "discounted_returns g b [] = []"
| "discounted_returns g b (r # rs) =
     (Fin r + Fin g * (case discounted_returns g b rs of [] \<Rightarrow> b | x # _ \<Rightarrow> x))
       # discounted_returns g b rs"

text \<open>
  The loss as the specification words it: the mean over the buffered steps of the
  squared error between return and value estimate plus the negative
  log-probability of the action taken, under the softmax of the policy logits,
  times the return minus the value estimate.
\<close>

definition spec_loss ::
  "('t, 'h, 's, 'w) lib \<Rightarrow> ('t, 's) actor_critic \<Rightarrow> fval list \<Rightarrow> fval" where
  "spec_loss L m Rs =
     mean (map (\<lambda>i. (Rs ! i - snd (forward L (parameters m) (states m ! i)))\<^sup>2 +
                    - Fin (ln (softmax (fst (forward L (parameters m) (states m ! i))) ! (actions m ! i))) *
                      (Rs ! i - snd (forward L (parameters m) (states m ! i))))
            [0..<length (states m)])"

section \<open>Small instances\<close>

text \<open>
  A library and a world to run the definitions on: two actions with equal logits,
  the state's number as its value, an optimizer that counts its steps in the
  data, and an environment whose states are numbered, with reward 1, that ends
  an episode at its second step and at no other.
\<close>

definition example_lib :: "(nat, unit, nat, nat) lib" where
  "example_lib =
     \<lparr>forward = (\<lambda>ps s. ([0, 0], Fin (real s))),
      zero_grad = (\<lambda>ps h. (map (\<lambda>p. p\<lparr>grad := None\<rparr>) ps, h)),
      backward = (\<lambda>m d h. (map (\<lambda>p. p\<lparr>grad := Some 0\<rparr>) (parameters m), h)),
      optimizer_step = (\<lambda>ps h. (map (\<lambda>p. p\<lparr>data := Suc (data p)\<rparr>) ps, h)),
      sample = (\<lambda>probs w. (0, w)),
      env_reset = (\<lambda>w. (w, w)),
      env_step = (\<lambda>a w. ((Suc w, 1, Suc w = 2), Suc w))\<rparr>"

definition example_model :: "(nat, nat) actor_critic" where
  "example_model =
     \<lparr>gamma = 1 / 2, parameters = [\<lparr>data = 0, grad = None\<rparr>],
      rewards = [1, 1], actions = [0, 1], states = [0, 1], next_states = [1, 2]\<rparr>"

definition example_agent :: "(nat, unit, nat, nat) agent" where
  "example_agent =
     \<lparr>pc = While_games,
      local_actor_critic = init_actor_critic (1 / 2) [\<lparr>data = 0, grad = None\<rparr>],
      global_actor_critic = init_actor_critic (1 / 2) [\<lparr>data = 0, grad = Some 7\<rparr>],
      store = (), world = 0, episode_idx = 0, rewards_log = [], t_step = 1,
      ep_done = False, state = 0, next_state = 0, score = 0\<rparr>"

text \<open>
  A network whose value head has diverged and returns infinity, and a network
  that is all but sure of its first action: logits 10 and -10, with the less
  likely action taken first.
\<close>

definition diverged_lib :: "(nat, unit, nat, nat) lib" where
  "diverged_lib = example_lib\<lparr>forward := (\<lambda>ps s. ([0, 0], PInf))\<rparr>"

definition confident_lib :: "(nat, unit, nat, nat) lib" where
  "confident_lib = example_lib\<lparr>forward := (\<lambda>ps s. ([10, - 10], Fin (real s)))\<rparr>"

definition confident_model :: "(nat, nat) actor_critic" where
  "confident_model = example_model\<lparr>actions := [1, 0]\<rparr>"

section \<open>Properties of the buffer\<close>

lemma buffer_reachable_lengths:
  "buffer_reachable m \<Longrightarrow>
     length (actions m) = length (states m) \<and> length (rewards m) = length (states m) \<and>
     length (next_states m) = length (states m)"
  by (induction rule: buffer_reachable.induct)
     (simp_all add: init_actor_critic_def remember_def clear_memory_def)

text \<open>
  Claim C8. Whatever the buffer holds, \<open>clear_memory\<close> leaves the four sequences
  (states, actions, rewards, next states) empty, so all of length zero; the
  discount factor and the parameters are not touched.
\<close>

theorem clear_memory_empties:
  "states (clear_memory m) = [] \<and> actions (clear_memory m) = [] \<and>
   rewards (clear_memory m) = [] \<and> next_states (clear_memory m) = [] \<and>
   length (states (clear_memory m)) = 0 \<and> length (actions (clear_memory m)) = 0 \<and>
   length (rewards (clear_memory m)) = 0 \<and> length (next_states (clear_memory m)) = 0 \<and>
   gamma (clear_memory m) = gamma m \<and> parameters (clear_memory m) = parameters m"
  by (simp add: clear_memory_def)

text \<open>
  Claim C10. \<open>remember\<close> appends exactly one element to each of the four
  sequences and changes nothing else, \<open>clear_memory\<close> empties the four, and so
  every buffer built from the constructor by these two methods has four
  sequences of one length.
\<close>

theorem buffer_lengths_equal:
  "states (remember m s a r s') = states m @ [s] \<and>
   actions (remember m s a r s') = actions m @ [a] \<and>
   rewards (remember m s a r s') = rewards m @ [r] \<and>
   next_states (remember m s a r s') = next_states m @ [s'] \<and>
   gamma (remember m s a r s') = gamma m \<and>
   parameters (remember m s a r s') = parameters m \<and>
   clear_memory m = m\<lparr>states := [], actions := [], rewards := [], next_states := []\<rparr> \<and>
   (buffer_reachable m \<longrightarrow>
      length (actions m) = length (states m) \<and> length (rewards m) = length (states m) \<and>
      length (next_states m) = length (states m))"
  using buffer_reachable_lengths [of m] by (simp add: remember_def clear_memory_def)


text \<open>Two transitions remembered after construction: a reachable buffer, of length two.\<close>

theorem buffer_lengths_equal_witness:
  "buffer_reachable (remember (remember (init_actor_critic (1 / 2) [] :: (nat, nat) actor_critic) 0 0 1 1) 1 1 1 2) \<and>
   length (actions (remember (remember (init_actor_critic (1 / 2) [] :: (nat, nat) actor_critic) 0 0 1 1) 1 1 1 2)) = 2 \<and>
   length (states (remember (remember (init_actor_critic (1 / 2) [] :: (nat, nat) actor_critic) 0 0 1 1) 1 1 1 2)) = 2 \<and>
   length (rewards (remember (remember (init_actor_critic (1 / 2) [] :: (nat, nat) actor_critic) 0 0 1 1) 1 1 1 2)) = 2 \<and>
   length (next_states (remember (remember (init_actor_critic (1 / 2) [] :: (nat, nat) actor_critic) 0 0 1 1) 1 1 1 2)) = 2"
proof -
  let ?m = "remember (remember (init_actor_critic (1 / 2) [] :: (nat, nat) actor_critic) 0 0 1 1) 1 1 1 2"
  have r: "buffer_reachable ?m"
    by (intro br_remember br_init)
  have s: "length (states ?m) = 2"
    by (simp add: remember_def init_actor_critic_def)
  from r s buffer_lengths_equal [of ?m 0 0 0 0] show ?thesis by simp
qed

section \<open>Properties of the returns\<close>

text \<open>
  The backward scan appends one return per reward; read in reverse, its result is
  the recurrence of the specification.
\<close>

lemma scan_returns_snoc:
  "scan_returns g R acc (xs @ [x]) =
     scan_returns g R acc xs @ [Fin x + Fin g * foldl (\<lambda>R r. Fin r + Fin g * R) R xs]"
  by (induction xs arbitrary: R acc) (simp_all add: Let_def)

lemma scan_returns_final:
  "(case rev (scan_returns g R [] xs) of [] \<Rightarrow> R | y # _ \<Rightarrow> y) =
     foldl (\<lambda>R r. Fin r + Fin g * R) R xs"
  by (cases xs rule: rev_cases) (simp_all add: scan_returns_snoc)

lemma rev_scan_returns: "rev (scan_returns g b [] (rev rs)) = discounted_returns g b rs"
proof (induction rs)
  case Nil
  show ?case by simp
next
  case (Cons r rs)
  have "rev (scan_returns g b [] (rev rs @ [r])) =
          (Fin r + Fin g * foldl (\<lambda>R r. Fin r + Fin g * R) b (rev rs))
            # rev (scan_returns g b [] (rev rs))"
    by (simp add: scan_returns_snoc)
  also have "foldl (\<lambda>R r. Fin r + Fin g * R) b (rev rs) =
          (case rev (scan_returns g b [] (rev rs)) of [] \<Rightarrow> b | y # _ \<Rightarrow> y)"
    by (simp only: scan_returns_final)
  finally show ?case using Cons.IH by simp
qed

lemma discounted_returns_length: "length (discounted_returns g b rs) = length rs"
  by (induction rs) simp_all

lemma discounted_returns_step:
  "Suc t < length rs \<Longrightarrow>
     discounted_returns g b rs ! t = Fin (rs ! t) + Fin g * discounted_returns g b rs ! Suc t"
proof (induction rs arbitrary: t)
  case Nil
  then show ?case by simp
next
  case (Cons r rs)
  show ?case
  proof (cases t)
    case 0
    with Cons.prems obtain x xs where "discounted_returns g b rs = x # xs"
      by (cases rs) auto
    with 0 show ?thesis by simp
  next
    case (Suc n)
    with Cons show ?thesis by simp
  qed
qed

lemma discounted_returns_last:
  "rs \<noteq> [] \<Longrightarrow>
     discounted_returns g b rs ! (length rs - 1) = Fin (rs ! (length rs - 1)) + Fin g * b"
proof (induction rs)
  case Nil
  then show ?case by simp
next
  case (Cons r rs)
  show ?case
  proof (cases rs)
    case Nil
    then show ?thesis by simp
  next
    case (Cons r' rs')
    with Cons.IH show ?thesis by simp
  qed
qed

text \<open>
  With a next state in the buffer, line 94 multiplies the estimate of the last
  one by 0 or 1; with a state and a next state, \<open>calc_R\<close> is the recurrence from
  that product. Without one of them the forward pass raises.
\<close>

lemma bootstrap_value:
  "next_states m \<noteq> [] \<Longrightarrow>
     bootstrap L m done =
       Inr (snd (forward L (parameters m) (last (next_states m))) *
            Fin (1 - (if done then 1 else 0)))"
  by (simp add: bootstrap_def forward_batch_def last_elem_def last_map)

lemma calc_R_discounted:
  "states m \<noteq> [] \<Longrightarrow> bootstrap L m done = Inr b \<Longrightarrow>
     calc_R L m done = Inr (discounted_returns (gamma m) b (rewards m))"
  by (simp add: calc_R_def forward_batch_def rev_scan_returns)

lemma calc_R_RuntimeError:
  "states m = [] \<or> next_states m = [] \<Longrightarrow> calc_R L m done = Inl RuntimeError"
  by (auto simp: calc_R_def bootstrap_def forward_batch_def)

lemma fval_times_one: "a * Fin 1 = (a :: fval)"
  by (cases a) simp_all

text \<open>
  Claim C1. On a buffer with at least one state, one next state and one reward,
  \<open>calc_R\<close> returns one return per buffered reward, in the order of the rewards,
  with \<open>R_t = reward_t + gamma * R_{t+1}\<close> below the last index and
  \<open>R_{L-1} = reward_{L-1} + gamma * bootstrap\<close> at it, where the bootstrap is what
  line 94 computes. The discount factor may be any number.
\<close>

theorem calc_R_recurrence:
  assumes "states m \<noteq> []" and "next_states m \<noteq> []" and "rewards m \<noteq> []"
  shows "\<exists>b Rs. bootstrap L m done = Inr b \<and> calc_R L m done = Inr Rs \<and>
           length Rs = length (rewards m) \<and>
           (\<forall>t. Suc t < length (rewards m) \<longrightarrow>
              Rs ! t = Fin (rewards m ! t) + Fin (gamma m) * Rs ! Suc t) \<and>
           Rs ! (length (rewards m) - 1) =
             Fin (rewards m ! (length (rewards m) - 1)) + Fin (gamma m) * b"
proof -
  from assms(2) obtain b where b: "bootstrap L m done = Inr b"
    by (simp add: bootstrap_value)
  let ?Rs = "discounted_returns (gamma m) b (rewards m)"
  have "calc_R L m done = Inr ?Rs"
    using assms(1) b by (rule calc_R_discounted)
  moreover have "length ?Rs = length (rewards m)"
    by (rule discounted_returns_length)
  moreover have "\<forall>t. Suc t < length (rewards m) \<longrightarrow>
      ?Rs ! t = Fin (rewards m ! t) + Fin (gamma m) * ?Rs ! Suc t"
    by (simp add: discounted_returns_step)
  moreover have "?Rs ! (length (rewards m) - 1) =
      Fin (rewards m ! (length (rewards m) - 1)) + Fin (gamma m) * b"
    using assms(3) by (rule discounted_returns_last)
  ultimately show ?thesis using b by blast
qed

text \<open>The buffer of the instance, not done: bootstrap 2, returns 2 and 2 at discount one half.\<close>

theorem calc_R_recurrence_witness:
  "states example_model \<noteq> [] \<and> next_states example_model \<noteq> [] \<and>
   rewards example_model \<noteq> [] \<and>
   bootstrap example_lib example_model False = Inr (Fin 2) \<and>
   calc_R example_lib example_model False = Inr [Fin 2, Fin 2] \<and>
   (\<exists>b Rs. bootstrap example_lib example_model False = Inr b \<and>
      calc_R example_lib example_model False = Inr Rs \<and> length Rs = 2 \<and>
      Rs ! 0 = Fin 1 + Fin (1 / 2) * Rs ! 1 \<and> Rs ! 1 = Fin 1 + Fin (1 / 2) * b)"
proof -
  have s: "states example_model \<noteq> []" and n: "next_states example_model \<noteq> []"
    and r: "rewards example_model \<noteq> []"
    by (simp_all add: example_model_def)
  have b: "bootstrap example_lib example_model False = Inr (Fin 2)"
    by (simp add: bootstrap_def forward_batch_def last_elem_def example_model_def example_lib_def)
  have c: "calc_R example_lib example_model False = Inr [Fin 2, Fin 2]"
    unfolding calc_R_def b by (simp add: example_model_def forward_batch_def Let_def)
  from calc_R_recurrence [OF s n r, of example_lib False] b c s n r show ?thesis
    by (simp add: example_model_def)
qed

text \<open>
  Claim C2, as stated, fails: with \<open>done\<close> true the bootstrap is not 0 whatever
  the estimate. Line 94 multiplies the estimate by \<open>1 - int(done)\<close>, and an
  infinite estimate times 0 is not a number; the returns computed from it are
  not numbers either.
\<close>

theorem bootstrap_done_counterexample:
  "snd (forward diverged_lib (parameters example_model) (last (next_states example_model))) = PInf \<and>
   bootstrap diverged_lib example_model True = Inr NaN \<and>
   bootstrap diverged_lib example_model True \<noteq> Inr 0 \<and>
   calc_R diverged_lib example_model True = Inr [NaN, NaN]"
proof -
  have b: "bootstrap diverged_lib example_model True = Inr NaN"
    by (simp add: bootstrap_def forward_batch_def last_elem_def example_model_def
          diverged_lib_def example_lib_def)
  have c: "calc_R diverged_lib example_model True = Inr [NaN, NaN]"
    unfolding calc_R_def b by (simp add: example_model_def forward_batch_def Let_def)
  have "snd (forward diverged_lib (parameters example_model) (last (next_states example_model))) = PInf"
    by (simp add: diverged_lib_def)
  with b c show ?thesis by (simp add: zero_fval_def)
qed

text \<open>
  Claim C2, amended. On a buffer with a state and a next state: with \<open>done\<close> true
  and a finite value estimate of the last buffered next state the bootstrap is
  exactly 0, and the returns are those of the rewards alone, whatever the finite
  estimate; an estimate that is not finite gives a bootstrap that is not a
  number. With \<open>done\<close> false the bootstrap is the model's value estimate of the
  last buffered next state.
\<close>

theorem bootstrap_done:
  assumes "states m \<noteq> []" and "next_states m \<noteq> []"
  shows "(\<forall>x. snd (forward L (parameters m) (last (next_states m))) = Fin x \<longrightarrow>
            bootstrap L m True = Inr 0 \<and>
            calc_R L m True = Inr (discounted_returns (gamma m) 0 (rewards m))) \<and>
         ((\<forall>x. snd (forward L (parameters m) (last (next_states m))) \<noteq> Fin x) \<longrightarrow>
            bootstrap L m True = Inr NaN) \<and>
         bootstrap L m False = Inr (snd (forward L (parameters m) (last (next_states m)))) \<and>
         calc_R L m False =
           Inr (discounted_returns (gamma m) (snd (forward L (parameters m) (last (next_states m))))
                  (rewards m))"
proof -
  let ?v = "snd (forward L (parameters m) (last (next_states m)))"
  have t: "bootstrap L m True = Inr (?v * Fin 0)"
    using assms(2) by (simp add: bootstrap_value)
  have f: "bootstrap L m False = Inr ?v"
    using assms(2) by (simp add: bootstrap_value fval_times_one)
  have fin: "bootstrap L m True = Inr 0 \<and>
      calc_R L m True = Inr (discounted_returns (gamma m) 0 (rewards m))" if "?v = Fin x" for x
  proof -
    from t that have "bootstrap L m True = Inr 0" by (simp add: zero_fval_def)
    with calc_R_discounted [OF assms(1) this] show ?thesis by simp
  qed
  have inf: "bootstrap L m True = Inr NaN" if "\<forall>x. ?v \<noteq> Fin x"
    using t that by (cases ?v) simp_all
  from fin inf f calc_R_discounted [OF assms(1) f] show ?thesis by blast
qed

text \<open>
  In the instance the last next state has value 2, which \<open>done\<close> replaces by 0;
  the infinite estimate of the diverged network it does not.
\<close>

theorem bootstrap_done_witness:
  "states example_model \<noteq> [] \<and> next_states example_model \<noteq> [] \<and>
   snd (forward example_lib (parameters example_model) (last (next_states example_model))) = Fin 2 \<and>
   bootstrap example_lib example_model True = Inr 0 \<and>
   calc_R example_lib example_model True = Inr [Fin (3 / 2), Fin 1] \<and>
   bootstrap example_lib example_model False = Inr (Fin 2) \<and>
   calc_R example_lib example_model False = Inr [Fin 2, Fin 2] \<and>
   bootstrap diverged_lib example_model True = Inr NaN"
proof -
  have s: "states example_model \<noteq> []" and n: "next_states example_model \<noteq> []"
    by (simp_all add: example_model_def)
  have v: "snd (forward example_lib (parameters example_model) (last (next_states example_model))) = Fin 2"
    by (simp add: example_model_def example_lib_def)
  have d: "\<forall>x. snd (forward diverged_lib (parameters example_model) (last (next_states example_model))) \<noteq> Fin x"
    by (simp add: diverged_lib_def)
  from bootstrap_done [OF s n, of example_lib] v
  have "bootstrap example_lib example_model True = Inr 0"
    and "calc_R example_lib example_model True =
      Inr (discounted_returns (gamma example_model) 0 (rewards example_model))"
    and "bootstrap example_lib example_model False = Inr (Fin 2)"
    and "calc_R example_lib example_model False =
      Inr (discounted_returns (gamma example_model) (Fin 2) (rewards example_model))"
    by simp_all
  moreover from bootstrap_done [OF s n, of diverged_lib] d
  have "bootstrap diverged_lib example_model True = Inr NaN"
    by blast
  ultimately show ?thesis using s n v
    by (simp add: example_model_def zero_fval_def)
qed

section \<open>Properties of the loss\<close>

text \<open>The normalised exponentials of a non-empty row of logits sum to one.\<close>

lemma sum_list_exp_pos: "xs \<noteq> [] \<Longrightarrow> 0 < sum_list (map exp (xs :: real list))"
proof (induction xs)
  case Nil
  then show ?case by simp
next
  case (Cons x xs)
  have "0 \<le> sum_list (map exp xs)"
    by (rule sum_list_nonneg) auto
  moreover have "0 < exp x" by simp
  ultimately show ?case by (simp add: add_pos_nonneg)
qed

lemma sum_list_map_divide:
  "sum_list (map (\<lambda>x. f x / c) xs) = sum_list (map f xs) / (c :: real)"
  by (induction xs) (simp_all add: add_divide_distrib)

lemma sum_list_softmax: "xs \<noteq> [] \<Longrightarrow> sum_list (softmax xs) = 1"
  using sum_list_exp_pos [of xs] by (simp add: softmax_def sum_list_map_divide)

lemma length_softmax: "length (softmax xs) = length xs"
  by (simp add: softmax_def)

lemma log_prob_rows_ok:
  "\<forall>(p, a) \<in> set rows. a < length p \<Longrightarrow>
     log_prob_rows rows = Inr (map (\<lambda>(p, a). ln (clamp_probs (p ! a / sum_list p))) rows)"
  by (induction rows rule: log_prob_rows.induct) (simp_all add: log_prob_def)

lemma broadcast_equal: "length xs = length ys \<Longrightarrow> broadcast xs ys = Inr (zip xs ys)"
  by (simp add: broadcast_def)

lemma clamp_probs_id: "eps32 \<le> p \<Longrightarrow> p \<le> 1 - eps32 \<Longrightarrow> clamp_probs p = p"
  by (simp add: clamp_probs_def)

text \<open>The loss on a buffer of one length whose actions are in the support.\<close>

lemma calc_loss_steps:
  assumes eq: "buffers_equal m" and ne: "states m \<noteq> []"
    and sup: "\<forall>i. i < length (states m) \<longrightarrow>
                actions m ! i < length (fst (forward L (parameters m) (states m ! i)))"
    and R: "calc_R L m done = Inr Rs" and lR: "length Rs = length (states m)"
  shows "calc_loss L m done =
           Inr (mean (map (\<lambda>i.
                   (Rs ! i - snd (forward L (parameters m) (states m ! i)))\<^sup>2 +
                   - Fin (ln (clamp_probs
                       (softmax (fst (forward L (parameters m) (states m ! i))) ! (actions m ! i)))) *
                     (Rs ! i - snd (forward L (parameters m) (states m ! i))))
                 [0..<length (states m)]))"
proof -
  let ?n = "length (states m)"
  let ?pi = "\<lambda>i. fst (forward L (parameters m) (states m ! i))"
  let ?v = "\<lambda>i. snd (forward L (parameters m) (states m ! i))"
  let ?pv = "map (forward L (parameters m)) (states m)"
  from eq have la: "length (actions m) = ?n"
    by (simp add: buffers_equal_def)
  have fb: "forward_batch L (parameters m) (states m) = Inr ?pv"
    using ne by (simp add: forward_batch_def)
  let ?vals = "map snd ?pv"
  let ?probs = "map softmax (map fst ?pv)"
  let ?rv = "zip Rs ?vals"
  have brv: "broadcast Rs ?vals = Inr ?rv"
    by (rule broadcast_equal) (simp add: lR)
  let ?lps = "map (\<lambda>(p, a). ln (clamp_probs (p ! a / sum_list p))) (zip ?probs (actions m))"
  have "\<forall>(p, a) \<in> set (zip ?probs (actions m)). a < length p"
  proof (clarify)
    fix p a
    assume "(p, a) \<in> set (zip ?probs (actions m))"
    then obtain i where i: "i < ?n" and p: "p = ?probs ! i" and a: "a = actions m ! i"
      by (auto simp: set_zip la)
    from i sup have "actions m ! i < length (?pi i)" by simp
    with i p a show "a < length p" by (simp add: length_softmax)
  qed
  then have "log_prob_rows (zip ?probs (actions m)) = Inr ?lps"
    by (rule log_prob_rows_ok)
  then have lps: "log_probs ?probs (actions m) = Inr ?lps"
    by (simp add: log_probs_def broadcast_equal la)
  let ?adv = "map (\<lambda>(r, v). r - v) ?rv"
  let ?la = "zip ?lps ?adv"
  have bla: "broadcast ?lps ?adv = Inr ?la"
    by (rule broadcast_equal) (simp add: lR la)
  let ?critic = "map (\<lambda>(r, v). (r - v)\<^sup>2) ?rv"
  let ?actor = "map (\<lambda>(l, d). - Fin l * d) ?la"
  let ?ca = "zip ?critic ?actor"
  have bca: "broadcast ?critic ?actor = Inr ?ca"
    by (rule broadcast_equal) (simp add: lR la)
  let ?total = "map (\<lambda>(c, a). c + a) ?ca"
  have loss: "calc_loss L m done = Inr (mean ?total)"
    by (simp only: calc_loss_def Let_def R fb brv lps bla bca sum.case)
  let ?g = "\<lambda>i. (Rs ! i - ?v i)\<^sup>2 + - Fin (ln (clamp_probs (softmax (?pi i) ! (actions m ! i)))) * (Rs ! i - ?v i)"
  have "?total = map ?g [0..<?n]"
  proof (rule nth_equalityI)
    show "length ?total = length (map ?g [0..<?n])"
      by (simp add: lR la)
  next
    fix i
    assume "i < length ?total"
    then have i: "i < ?n" by (simp add: lR la)
    with sup have "actions m ! i < length (?pi i)" by simp
    then have "?pi i \<noteq> []" by auto
    then have "sum_list (softmax (?pi i)) = 1" by (rule sum_list_softmax)
    with i show "?total ! i = map ?g [0..<?n] ! i" by (simp add: lR la)
  qed
  with loss show ?thesis by simp
qed

text \<open>
  The exponential of 20 is more than \<open>2 ^ 23\<close>: of logits 10 and -10 the lesser
  probability is below the machine epsilon, and the greater above one minus it.
\<close>

lemma exp_20_lower: "(5 / 4) ^ 80 \<le> exp (20 :: real)"
proof -
  have "(5 / 4 :: real) \<le> exp (1 / 4)"
    using exp_ge_add_one_self [of "1 / 4 :: real"] by simp
  then have "(5 / 4 :: real) ^ 80 \<le> exp (1 / 4) ^ 80"
    by (intro power_mono) simp_all
  also have "exp (1 / 4 :: real) ^ 80 = exp (of_nat 80 * (1 / 4))"
    by (simp only: exp_of_nat_mult)
  also have "\<dots> = exp 20" by simp
  finally show ?thesis .
qed

lemma exp_20_gt: "2 ^ 23 < exp (20 :: real)"
proof -
  have "(2 :: real) ^ 23 < (5 / 4) ^ 80" by (simp add: power_divide)
  also note exp_20_lower
  finally show ?thesis .
qed

lemma softmax_confident:
  "softmax [10, - 10] = [exp 10 / (exp 10 + exp (- 10)), exp (- 10) / (exp 10 + exp (- 10))]"
  by (simp add: softmax_def)

lemma confident_low: "exp (- 10) / (exp 10 + exp (- 10)) < eps32"
proof -
  have e: "exp (20 :: real) = exp 10 * exp 10"
    by (simp add: exp_add [symmetric])
  have i: "exp (- 10 :: real) * exp 10 = 1"
    by (simp add: exp_add [symmetric])
  have "exp (- 10 :: real) * 2 ^ 23 < exp (- 10) * exp 20"
    using exp_20_gt by simp
  also have "\<dots> = exp 10"
    using i by (simp add: e mult.assoc [symmetric])
  also have "\<dots> < exp 10 + exp (- 10 :: real)" by simp
  finally have "exp (- 10 :: real) * 2 ^ 23 < exp 10 + exp (- 10)" .
  then have "exp (- 10 :: real) / (exp 10 + exp (- 10)) < 1 / 2 ^ 23"
    by (simp add: field_simps add_pos_pos)
  then show ?thesis by (simp add: eps32_def)
qed

lemma confident_high: "1 - eps32 < exp 10 / (exp 10 + exp (- 10))"
proof -
  have "exp 10 + exp (- 10 :: real) \<noteq> 0"
    using add_pos_pos [of "exp (10 :: real)" "exp (- 10)"] by simp
  then have "exp 10 / (exp 10 + exp (- 10 :: real)) + exp (- 10) / (exp 10 + exp (- 10)) = 1"
    by (simp add: add_divide_distrib [symmetric])
  with confident_low show ?thesis by linarith
qed

lemma clamp_confident:
  "clamp_probs (exp (- 10) / (exp 10 + exp (- 10))) = eps32"
  "clamp_probs (exp 10 / (exp 10 + exp (- 10))) = 1 - eps32"
  using confident_low confident_high by (simp_all add: clamp_probs_def eps32_def)

text \<open>
  Claim C6, as stated, fails: the actor loss is not the negative log-probability
  of the action taken when that probability is below the machine epsilon of
  32-bit floats, or above one minus it, because the library clamps the
  probability before it takes the logarithm. With logits 10 and -10, values 0
  and 1, returns 2 and 2 and the less likely action taken first, the loss of the
  specification is at least 45/2, and \<open>calc_loss\<close> returns less (about 18.44).
\<close>

theorem calc_loss_mean_counterexample:
  "buffers_equal confident_model \<and> states confident_model \<noteq> [] \<and>
   calc_R confident_lib confident_model False = Inr [Fin 2, Fin 2] \<and>
   calc_loss confident_lib confident_model False =
     Inr (Fin ((5 + (- (ln eps32 * 2) - ln (1 - eps32))) / 2)) \<and>
   (5 + (- (ln eps32 * 2) - ln (1 - eps32))) / 2 < 45 / 2 \<and>
   spec_loss confident_lib confident_model [Fin 2, Fin 2] =
     Fin ((5 + (- (ln (exp (- 10) / (exp 10 + exp (- 10))) * 2) -
                ln (exp 10 / (exp 10 + exp (- 10))))) / 2) \<and>
   (45 / 2 :: real) \<le> (5 + (- (ln (exp (- 10) / (exp 10 + exp (- 10))) * 2) -
                   ln (exp 10 / (exp 10 + exp (- 10))))) / 2 \<and>
   calc_loss confident_lib confident_model False \<noteq>
     Inr (spec_loss confident_lib confident_model [Fin 2, Fin 2])"
proof -
  let ?p1 = "exp (- 10) / (exp 10 + exp (- 10 :: real))"
  let ?p0 = "exp 10 / (exp 10 + exp (- 10 :: real))"
  let ?c = "(5 + (- (ln eps32 * 2) - ln (1 - eps32))) / 2"
  let ?s = "(5 + (- (ln ?p1 * 2) - ln ?p0)) / 2"
  have eq: "buffers_equal confident_model" and ne: "states confident_model \<noteq> []"
    by (simp_all add: buffers_equal_def confident_model_def example_model_def)
  have sup: "\<forall>i. i < length (states confident_model) \<longrightarrow>
      actions confident_model ! i <
        length (fst (forward confident_lib (parameters confident_model) (states confident_model ! i)))"
    by (simp add: confident_model_def example_model_def confident_lib_def less_Suc_eq)
  have R: "calc_R confident_lib confident_model False = Inr [Fin 2, Fin 2]"
    by (simp add: calc_R_def bootstrap_def forward_batch_def last_elem_def confident_model_def
          example_model_def confident_lib_def example_lib_def Let_def)
  have len: "length [Fin 2, Fin 2] = length (states confident_model)"
    by (simp add: confident_model_def example_model_def)
  have code: "calc_loss confident_lib confident_model False = Inr (Fin ?c)"
    unfolding calc_loss_steps [OF eq ne sup R len]
    by (simp add: confident_model_def example_model_def confident_lib_def
          softmax_confident clamp_confident mean_def upt_rec power2_eq_square minus_fval_def
          zero_fval_def)
  have spec: "spec_loss confident_lib confident_model [Fin 2, Fin 2] = Fin ?s"
    by (simp add: spec_loss_def confident_model_def example_model_def confident_lib_def
          softmax_confident mean_def upt_rec power2_eq_square minus_fval_def zero_fval_def)
  have pos: "0 < exp 10 + exp (- 10 :: real)"
    by (simp add: add_pos_pos)
  have p1: "ln ?p1 \<le> - 20"
  proof -
    have "?p1 \<le> exp (- 10) / exp 10"
      by (intro divide_left_mono) (simp_all add: pos)
    also have "\<dots> = exp (- 20 :: real)"
      by (simp add: exp_diff [symmetric])
    finally have "?p1 \<le> exp (- 20)" .
    moreover have "0 < ?p1" using pos by simp
    ultimately have "exp (ln ?p1) \<le> exp (- 20)" by simp
    then show ?thesis by (simp only: exp_le_cancel_iff)
  qed
  have p0: "ln ?p0 \<le> 0"
  proof -
    have "?p0 \<le> 1" using pos by simp
    moreover have "0 < ?p0" using pos by simp
    ultimately show ?thesis by simp
  qed
  from p1 p0 have s: "45 / 2 \<le> ?s" by simp
  have e2: "- ln (1 - eps32) = ln (2 ^ 23 / (2 ^ 23 - 1))"
    by (simp add: eps32_def ln_div)
  have "ln eps32 = ln 1 - ln (2 ^ 23)"
    unfolding eps32_def by (rule ln_divide_pos) simp_all
  also have "ln ((2 :: real) ^ 23) = real 23 * ln 2"
    by (rule ln_realpow)
  finally have e3: "- ln eps32 = 23 * ln 2" by simp
  have c: "?c < 45 / 2"
  proof -
    have "(2 ^ 23 :: real) * 2 < (5 / 4) ^ 80" by (simp add: power_divide)
    also note exp_20_lower
    finally have "exp (ln (2 ^ 24 :: real)) < exp 20" by simp
    then have "ln (2 ^ 24 :: real) < 20"
      by (simp only: exp_less_cancel_iff)
    moreover have "ln ((2 :: real) ^ 24) = real 24 * ln 2"
      by (rule ln_realpow)
    ultimately have "24 * ln (2 :: real) < 20" by simp
    moreover have "0 < ln (2 :: real)" by simp
    ultimately have "23 * ln (2 :: real) + 1 / 2 * ln 2 < 20" by simp
    moreover have "- ln (1 - eps32) \<le> ln 2"
    proof -
      have "(2 ^ 23 / (2 ^ 23 - 1) :: real) \<le> 2" by simp
      then have "ln (2 ^ 23 / (2 ^ 23 - 1) :: real) \<le> ln 2"
        by simp
      then show ?thesis by (simp add: e2)
    qed
    ultimately show ?thesis
      using e3 by simp
  qed
  from c s have "Fin ?c \<noteq> Fin ?s" by simp
  then have differ: "calc_loss confident_lib confident_model False \<noteq>
      Inr (spec_loss confident_lib confident_model [Fin 2, Fin 2])"
    unfolding code spec by blast
  from eq ne R code c spec s differ show ?thesis by blast
qed

text \<open>
  Claim C6, amended. On a non-empty buffer whose four sequences have one length
  and whose actions lie in the support of the policy, \<open>calc_loss\<close> is the mean
  over the buffered steps of critic loss plus actor loss: the critic loss of a
  step is the square of the computed return minus the value estimate; the actor
  loss is the negated logarithm of the probability that the softmax of the
  step's policy logits gives the action taken, that probability clamped to
  \<open>[eps, 1 - eps]\<close> with \<open>eps = 2 ^ -23\<close>, times the return minus the value
  estimate. Where every such probability lies in \<open>[eps, 1 - eps]\<close>, this is the
  loss as the specification words it.
\<close>

theorem calc_loss_mean:
  assumes eq: "buffers_equal m" and ne: "states m \<noteq> []"
    and sup: "\<forall>i. i < length (states m) \<longrightarrow>
                actions m ! i < length (fst (forward L (parameters m) (states m ! i)))"
  shows "\<exists>Rs. calc_R L m done = Inr Rs \<and> length Rs = length (states m) \<and>
           calc_loss L m done =
             Inr (mean (map (\<lambda>i.
                     (Rs ! i - snd (forward L (parameters m) (states m ! i)))\<^sup>2 +
                     - Fin (ln (clamp_probs
                         (softmax (fst (forward L (parameters m) (states m ! i))) ! (actions m ! i)))) *
                       (Rs ! i - snd (forward L (parameters m) (states m ! i))))
                   [0..<length (states m)])) \<and>
           ((\<forall>i. i < length (states m) \<longrightarrow>
               eps32 \<le> softmax (fst (forward L (parameters m) (states m ! i))) ! (actions m ! i) \<and>
               softmax (fst (forward L (parameters m) (states m ! i))) ! (actions m ! i) \<le> 1 - eps32) \<longrightarrow>
            calc_loss L m done = Inr (spec_loss L m Rs))"
proof -
  from eq have lr: "length (rewards m) = length (states m)"
    and ln: "length (next_states m) = length (states m)"
    by (simp_all add: buffers_equal_def)
  from ne ln have "next_states m \<noteq> []" by auto
  then obtain b where b: "bootstrap L m done = Inr b"
    by (simp add: bootstrap_value)
  let ?Rs = "discounted_returns (gamma m) b (rewards m)"
  have R: "calc_R L m done = Inr ?Rs"
    using ne b by (rule calc_R_discounted)
  have lR: "length ?Rs = length (states m)"
    by (simp add: discounted_returns_length lr)
  note loss = calc_loss_steps [OF eq ne sup R lR]
  have "calc_loss L m done = Inr (spec_loss L m ?Rs)"
    if inside: "\<forall>i. i < length (states m) \<longrightarrow>
               eps32 \<le> softmax (fst (forward L (parameters m) (states m ! i))) ! (actions m ! i) \<and>
               softmax (fst (forward L (parameters m) (states m ! i))) ! (actions m ! i) \<le> 1 - eps32"
  proof -
    have "clamp_probs (softmax (fst (forward L (parameters m) (states m ! i))) ! (actions m ! i)) =
        softmax (fst (forward L (parameters m) (states m ! i))) ! (actions m ! i)"
      if "i \<in> set [0..<length (states m)]" for i
      using that inside by (simp add: clamp_probs_id)
    then show ?thesis
      unfolding loss spec_loss_def
      by (intro arg_cong [where f = Inr] arg_cong [where f = mean] map_cong refl) simp
  qed
  with R lR loss show ?thesis by blast
qed

text \<open>
  The buffer of the instance, not done: returns 2 and 2 against values 0 and 1,
  both actions with probability one half, which the clamp leaves as it is.
\<close>

theorem calc_loss_mean_witness:
  "buffers_equal example_model \<and> states example_model \<noteq> [] \<and>
   calc_R example_lib example_model False = Inr [Fin 2, Fin 2] \<and>
   softmax [0, 0] = [1 / 2, 1 / 2] \<and> eps32 \<le> 1 / 2 \<and> 1 / 2 \<le> 1 - eps32 \<and>
   calc_loss example_lib example_model False = Inr (Fin ((5 - 3 * ln (1 / 2)) / 2)) \<and>
   spec_loss example_lib example_model [Fin 2, Fin 2] = Fin ((5 - 3 * ln (1 / 2)) / 2)"
proof -
  have eq: "buffers_equal example_model" and ne: "states example_model \<noteq> []"
    by (simp_all add: buffers_equal_def example_model_def)
  have sup: "\<forall>i. i < length (states example_model) \<longrightarrow>
      actions example_model ! i <
        length (fst (forward example_lib (parameters example_model) (states example_model ! i)))"
    by (simp add: example_model_def example_lib_def less_Suc_eq)
  have R: "calc_R example_lib example_model False = Inr [Fin 2, Fin 2]"
    by (simp add: calc_R_def bootstrap_def forward_batch_def last_elem_def example_model_def
          example_lib_def Let_def)
  have sm: "softmax [0, 0] = [1 / 2, 1 / 2]"
    by (simp add: softmax_def)
  have e: "eps32 \<le> 1 / 2" "1 / 2 \<le> 1 - eps32"
    by (simp_all add: eps32_def)
  have inside: "\<forall>i. i < length (states example_model) \<longrightarrow>
      eps32 \<le> softmax (fst (forward example_lib (parameters example_model) (states example_model ! i))) !
                 (actions example_model ! i) \<and>
      softmax (fst (forward example_lib (parameters example_model) (states example_model ! i))) !
                 (actions example_model ! i) \<le> 1 - eps32"
    using e by (simp add: example_model_def example_lib_def sm less_Suc_eq)
  have spec: "spec_loss example_lib example_model [Fin 2, Fin 2] = Fin ((5 - 3 * ln (1 / 2)) / 2)"
    by (simp add: spec_loss_def example_model_def example_lib_def sm mean_def upt_rec
          power2_eq_square minus_fval_def zero_fval_def)
  from calc_loss_mean [OF eq ne sup, of False] R inside
  have "calc_loss example_lib example_model False =
      Inr (spec_loss example_lib example_model [Fin 2, Fin 2])"
    by auto
  with eq ne R sm e spec show ?thesis by simp
qed

section \<open>Properties of the worker loop\<close>

text \<open>A synchronization that succeeds changes the two models and the store, and empties the buffer.\<close>

lemma sync_frame:
  assumes "sync L a = Inr a'"
  shows "pc a' = pc a" "t_step a' = t_step a" "ep_done a' = ep_done a"
    "next_state a' = next_state a" "episode_idx a' = episode_idx a"
    "rewards_log a' = rewards_log a" "world a' = world a" "score a' = score a"
    "states (local_actor_critic a') = []" "actions (local_actor_critic a') = []"
    "rewards (local_actor_critic a') = []" "next_states (local_actor_critic a') = []"
  using assms
  by (auto simp: sync_def load_state_dict_def clear_memory_def Let_def
           split: sum.splits prod.splits if_splits)

lemma segment_inv_initial: "initial a \<Longrightarrow> segment_inv 0 a"
  by (simp add: initial_def segment_inv_def buffers_equal_def)

lemma segment_inv_interfere: "segment_inv n a \<Longrightarrow> segment_inv n (interfere k f a)"
  by (auto simp: segment_inv_def interfere_def buffers_equal_def Let_def split: prod.splits pc.splits)

lemma mod5_succ: "1 \<le> (t::int) \<Longrightarrow> t mod 5 \<noteq> 0 \<Longrightarrow> t mod 5 = (t - 1) mod 5 + 1"
  by presburger

lemma mod5_zero: "1 \<le> (t::int) \<Longrightarrow> t mod 5 = 0 \<Longrightarrow> (t - 1) mod 5 = 4"
  by presburger

lemma segment_inv_step:
  assumes "segment_inv n a"
  shows "segment_inv (ep_steps_after a n) (step L limit a)"
proof (cases "pc a")
  case While_games
  with assms show ?thesis
    by (auto simp: segment_inv_def step_def ep_steps_after_def buffers_equal_def clear_memory_def
             split: prod.splits)
next
  case While_not_done
  with assms show ?thesis
    by (auto simp: segment_inv_def step_def ep_steps_after_def buffers_equal_def remember_def Let_def
             split: prod.splits)
next
  case Sync_test
  show ?thesis
  proof (cases "t_step a mod T_MAX = 0 \<or> ep_done a")
    case True
    show ?thesis
    proof (cases "sync L a")
      case (Inl e)
      with True Sync_test assms show ?thesis
        by (auto simp: segment_inv_def step_def ep_steps_after_def Let_def)
    next
      case (Inr a')
      note fr = sync_frame[OF Inr]
      from True Sync_test Inr have st: "step L limit a = a'\<lparr>t_step := t_step a' + 1, state := next_state a', pc := While_not_done\<rparr>"
        by (auto simp: step_def)
      from assms have t: "1 \<le> t_step a" by (simp add: segment_inv_def)
      show ?thesis
      proof (cases "ep_done a")
        case True
        with fr t show ?thesis unfolding st
          by (simp add: segment_inv_def buffers_equal_def)
      next
        case False
        with \<open>t_step a mod T_MAX = 0 \<or> ep_done a\<close> have "t_step a mod 5 = 0" by (simp add: T_MAX_def)
        with fr t show ?thesis unfolding st
          by (simp add: segment_inv_def buffers_equal_def)
      qed
    qed
  next
    case False
    then have m: "t_step a mod 5 \<noteq> 0" and nd: "\<not> ep_done a" by (simp_all add: T_MAX_def)
    from False Sync_test have st: "step L limit a = a\<lparr>t_step := t_step a + 1, state := next_state a, pc := While_not_done\<rparr>"
      by (auto simp: step_def)
    from assms have t: "1 \<le> t_step a" by (simp add: segment_inv_def)
    from mod5_succ[OF t m] assms Sync_test nd show ?thesis unfolding st
      by (auto simp: segment_inv_def ep_steps_after_def Let_def)
  qed
next
  case Exited
  with assms show ?thesis by (simp add: segment_inv_def step_def ep_steps_after_def)
next
  case (Raised e)
  with assms show ?thesis by (simp add: segment_inv_def step_def ep_steps_after_def)
qed

lemma reaches_segment_inv:
  "reaches L limit a0 n a \<Longrightarrow> initial a0 \<Longrightarrow> segment_inv n a"
  by (induction rule: reaches.induct)
     (simp_all add: segment_inv_initial segment_inv_step segment_inv_interfere)


lemma reaches_run_steps:
  "reaches L limit a0 n a \<Longrightarrow> \<exists>n'. reaches L limit a0 n' (run_steps L limit k a)"
proof (induction k arbitrary: n a)
  case 0
  then show ?case by auto
next
  case (Suc k)
  from Suc.prems have "reaches L limit a0 (ep_steps_after a n) (step L limit a)"
    by (rule reaches_step)
  from Suc.IH [OF this] show ?case by simp
qed

lemma reaches_count_steps:
  "reaches L limit a0 n a \<Longrightarrow>
     reaches L limit a0 (count_steps L limit k a n) (run_steps L limit k a)"
proof (induction k arbitrary: n a)
  case 0
  then show ?case by simp
next
  case (Suc k)
  from Suc.prems have "reaches L limit a0 (ep_steps_after a n) (step L limit a)"
    by (rule reaches_step)
  from Suc.IH [OF this] show ?case by simp
qed

text \<open>The loop of lines 171 to 173 and the pull of line 179.\<close>

lemma push_grads_length: "length (push_grads ls gs) = length gs"
  by (induction ls gs rule: push_grads.induct) simp_all

lemma push_grads_nth:
  "i < length ls \<Longrightarrow> i < length gs \<Longrightarrow>
     grad (push_grads ls gs ! i) = grad (ls ! i) \<and> data (push_grads ls gs ! i) = data (gs ! i)"
proof (induction ls gs arbitrary: i rule: push_grads.induct)
  case (3 local_param ls global_param gs)
  then show ?case by (cases i) simp_all
qed simp_all

lemma load_state_dict_data:
  assumes "load_state_dict m sd = Inr m'"
  shows "map data (parameters m') = sd" and "map grad (parameters m') = map grad (parameters m)"
    and "gamma m' = gamma m" and "states m' = states m" and "actions m' = actions m"
    and "rewards m' = rewards m" and "next_states m' = next_states m"
proof -
  from assms have l: "length sd = length (parameters m)"
    and m': "m' = m\<lparr>parameters := map2 (\<lambda>p d. p\<lparr>data := d\<rparr>) (parameters m) sd\<rparr>"
    by (auto simp: load_state_dict_def split: if_splits)
  from l show "map data (parameters m') = sd" unfolding m'
    by (auto intro!: nth_equalityI)
  from l show "map grad (parameters m') = map grad (parameters m)" unfolding m'
    by (auto intro!: nth_equalityI)
  show "gamma m' = gamma m" "states m' = states m" "actions m' = actions m"
    "rewards m' = rewards m" "next_states m' = next_states m"
    unfolding m' by simp_all
qed

lemma wrap32_id: "- (2 ^ 31) \<le> x \<Longrightarrow> x < 2 ^ 31 \<Longrightarrow> wrap32 x = x"
  by (simp add: wrap32_def)










text \<open>The definitions to unfold when the instance is run.\<close>

lemmas example_defs = example_lib_def example_agent_def init_actor_critic_def
  step_def sync_def calc_loss_def calc_R_def bootstrap_def forward_batch_def last_elem_def
  broadcast_def log_probs_def log_prob_def clamp_probs_def eps32_def softmax_def mean_def
  power2_eq_square minus_fval_def zero_fval_def choose_action_def remember_def clear_memory_def
  load_state_dict_def state_dict_def T_MAX_def N_GAMES_def wrap32_def interfere_def

text \<open>
  Claim C4, as stated, fails: a segment can be shorter than 5 at a
  synchronization point of an episode that has not ended. \<open>t_step\<close> is set
  before the loop over episodes and never reset. In the instance the first
  episode ends at its second step; the second episode starts with \<open>t_step = 3\<close>,
  and at \<open>t_step = 5\<close> the worker synchronizes a segment of three transitions with
  \<open>done\<close> false.
\<close>

theorem segment_shorter_counterexample:
  "initial example_agent \<and>
   (\<exists>n. reaches example_lib N_GAMES example_agent n (run_steps example_lib N_GAMES 12 example_agent)) \<and>
   pc (run_steps example_lib N_GAMES 12 example_agent) = Sync_test \<and>
   t_step (run_steps example_lib N_GAMES 12 example_agent) mod T_MAX = 0 \<and>
   \<not> ep_done (run_steps example_lib N_GAMES 12 example_agent) \<and>
   length (states (local_actor_critic (run_steps example_lib N_GAMES 12 example_agent))) = 3"
proof -
  have "\<exists>n. reaches example_lib N_GAMES example_agent n (run_steps example_lib N_GAMES 12 example_agent)"
    by (rule reaches_run_steps [OF reaches_start])
  moreover have "initial example_agent"
    by (simp add: initial_def example_agent_def init_actor_critic_def)
  moreover have "pc (run_steps example_lib N_GAMES 12 example_agent) = Sync_test"
    by (simp add: example_defs eval_nat_numeral Let_def)
  moreover have "t_step (run_steps example_lib N_GAMES 12 example_agent) mod T_MAX = 0"
    by (simp add: example_defs eval_nat_numeral Let_def)
  moreover have "\<not> ep_done (run_steps example_lib N_GAMES 12 example_agent)"
    by (simp add: example_defs eval_nat_numeral Let_def)
  moreover have "length (states (local_actor_critic (run_steps example_lib N_GAMES 12 example_agent))) = 3"
    by (simp add: example_defs eval_nat_numeral Let_def)
  ultimately show ?thesis by blast
qed


text \<open>
  Claim C4, amended. In every configuration a worker reaches from its start, the
  four buffered sequences have one length, at most 5; at the test of line 165
  the segment holds at least one transition, and when a synchronization is due
  there with fewer than 5, the episode has just ended or the segment holds every
  transition of the episode so far (it is the first segment of its episode).
  Entering an episode empties the segment, and so does every synchronization
  that does not raise.
\<close>

theorem segment_bounded:
  assumes "initial a0" and "reaches L limit a0 n a"
  shows "buffers_equal (local_actor_critic a) \<and>
         int (length (states (local_actor_critic a))) \<le> T_MAX \<and>
         (pc a = Sync_test \<longrightarrow>
            1 \<le> length (states (local_actor_critic a)) \<and>
            ((t_step a mod T_MAX = 0 \<or> ep_done a) \<and>
             int (length (states (local_actor_critic a))) < T_MAX \<longrightarrow>
               ep_done a \<or> length (states (local_actor_critic a)) = n)) \<and>
         (pc a = While_games \<and> episode_idx a < limit \<longrightarrow>
            pc (step L limit a) = While_not_done \<and>
            states (local_actor_critic (step L limit a)) = [] \<and>
            actions (local_actor_critic (step L limit a)) = [] \<and>
            rewards (local_actor_critic (step L limit a)) = [] \<and>
            next_states (local_actor_critic (step L limit a)) = []) \<and>
         (pc a = Sync_test \<and> (t_step a mod T_MAX = 0 \<or> ep_done a) \<longrightarrow>
            (\<exists>e. pc (step L limit a) = Raised e) \<or>
            pc (step L limit a) = While_not_done \<and>
            states (local_actor_critic (step L limit a)) = [] \<and>
            actions (local_actor_critic (step L limit a)) = [] \<and>
            rewards (local_actor_critic (step L limit a)) = [] \<and>
            next_states (local_actor_critic (step L limit a)) = [])"
proof -
  from assms have inv: "segment_inv n a"
    by (simp add: reaches_segment_inv)
  then have t: "1 \<le> t_step a" and eq: "buffers_equal (local_actor_critic a)"
    by (simp_all add: segment_inv_def)
  have r: "(t_step a - 1) mod 5 \<le> 4" by presburger
  have bound: "int (length (states (local_actor_critic a))) \<le> T_MAX"
    using inv r by (cases "pc a") (auto simp: segment_inv_def T_MAX_def Let_def)
  have at_sync: "pc a = Sync_test \<longrightarrow>
            1 \<le> length (states (local_actor_critic a)) \<and>
            ((t_step a mod T_MAX = 0 \<or> ep_done a) \<and>
             int (length (states (local_actor_critic a))) < T_MAX \<longrightarrow>
               ep_done a \<or> length (states (local_actor_critic a)) = n)"
    using inv mod5_zero [OF t] by (auto simp: segment_inv_def T_MAX_def Let_def)
  have at_start: "pc a = While_games \<and> episode_idx a < limit \<longrightarrow>
            pc (step L limit a) = While_not_done \<and>
            states (local_actor_critic (step L limit a)) = [] \<and>
            actions (local_actor_critic (step L limit a)) = [] \<and>
            rewards (local_actor_critic (step L limit a)) = [] \<and>
            next_states (local_actor_critic (step L limit a)) = []"
    by (auto simp: step_def clear_memory_def split: prod.splits)
  have after_sync: "pc a = Sync_test \<and> (t_step a mod T_MAX = 0 \<or> ep_done a) \<longrightarrow>
            (\<exists>e. pc (step L limit a) = Raised e) \<or>
            pc (step L limit a) = While_not_done \<and>
            states (local_actor_critic (step L limit a)) = [] \<and>
            actions (local_actor_critic (step L limit a)) = [] \<and>
            rewards (local_actor_critic (step L limit a)) = [] \<and>
            next_states (local_actor_critic (step L limit a)) = []"
  proof (cases "sync L a")
    case (Inl e)
    then show ?thesis by (auto simp: step_def)
  next
    case (Inr a')
    from sync_frame [OF Inr] Inr show ?thesis by (auto simp: step_def)
  qed
  from eq bound at_sync at_start after_sync show ?thesis by blast
qed

text \<open>
  The configuration of the counterexample: reached with three transitions in the
  episode, all three in the segment, and emptied by the synchronization.
\<close>

theorem segment_bounded_witness:
  "initial example_agent \<and>
   reaches example_lib N_GAMES example_agent 3 (run_steps example_lib N_GAMES 12 example_agent) \<and>
   pc (run_steps example_lib N_GAMES 12 example_agent) = Sync_test \<and>
   t_step (run_steps example_lib N_GAMES 12 example_agent) mod T_MAX = 0 \<and>
   \<not> ep_done (run_steps example_lib N_GAMES 12 example_agent) \<and>
   length (states (local_actor_critic (run_steps example_lib N_GAMES 12 example_agent))) = 3 \<and>
   buffers_equal (local_actor_critic (run_steps example_lib N_GAMES 12 example_agent)) \<and>
   pc (run_steps example_lib N_GAMES 13 example_agent) = While_not_done \<and>
   states (local_actor_critic (run_steps example_lib N_GAMES 13 example_agent)) = []"
proof -
  let ?a = "run_steps example_lib N_GAMES 12 example_agent"
  have i: "initial example_agent"
    by (simp add: initial_def example_agent_def init_actor_critic_def)
  have c: "count_steps example_lib N_GAMES 12 example_agent 0 = 3"
    by (simp add: example_defs ep_steps_after_def eval_nat_numeral Let_def)
  have r: "reaches example_lib N_GAMES example_agent 3 ?a"
    using reaches_count_steps [OF reaches_start, of example_lib N_GAMES example_agent 12]
    by (simp only: c)
  have p: "pc ?a = Sync_test" "t_step ?a mod T_MAX = 0" "\<not> ep_done ?a"
    "length (states (local_actor_critic ?a)) = 3"
    by (simp_all add: example_defs eval_nat_numeral Let_def)
  have n: "step example_lib N_GAMES ?a = run_steps example_lib N_GAMES 13 example_agent"
    by (simp add: example_defs eval_nat_numeral Let_def)
  have q: "pc (run_steps example_lib N_GAMES 13 example_agent) = While_not_done"
    by (simp add: example_defs eval_nat_numeral Let_def)
  from segment_bounded [OF i r] i r p q show ?thesis
    by (simp add: n)
qed

text \<open>
  Claim C9, as stated, fails in what it says of the failure: on the empty buffer
  \<open>calc_R\<close> does not reach the bootstrap of line 94. The forward pass over the
  buffered states of line 87 comes first, and the library rejects the empty
  batch with a \<open>RuntimeError\<close>; the \<open>IndexError\<close> of \<open>v_next[-1]\<close> is never
  raised.
\<close>

theorem calc_R_needs_transition_counterexample:
  "states (init_actor_critic (1 / 2) [] :: (nat, nat) actor_critic) = [] \<and>
   next_states (init_actor_critic (1 / 2) [] :: (nat, nat) actor_critic) = [] \<and>
   forward_batch example_lib [] ([] :: nat list) = Inl RuntimeError \<and>
   calc_R example_lib (init_actor_critic (1 / 2) []) True = Inl RuntimeError \<and>
   calc_R example_lib (init_actor_critic (1 / 2) []) True \<noteq> Inl IndexError \<and>
   calc_loss example_lib (init_actor_critic (1 / 2) []) True = Inl RuntimeError"
  by (simp add: init_actor_critic_def calc_loss_def calc_R_def forward_batch_def)

text \<open>
  Claim C9, amended. \<open>calc_R\<close>, and hence \<open>calc_loss\<close>, is only defined when the
  buffer is not empty: without a buffered state or without a buffered next state
  the forward pass raises a \<open>RuntimeError\<close> before the bootstrap of line 94 is
  computed, and with both \<open>calc_R\<close> returns; the indexing of line 94 never
  fails. At every test of line 165 a worker reaches, the buffer holds a
  transition, so the precondition holds at every synchronization point.
\<close>

theorem calc_R_needs_transition:
  "(states m = [] \<or> next_states m = [] \<longrightarrow>
      calc_R L m done = Inl RuntimeError \<and> calc_loss L m done = Inl RuntimeError) \<and>
   (states m \<noteq> [] \<and> next_states m \<noteq> [] \<longrightarrow> (\<exists>Rs. calc_R L m done = Inr Rs)) \<and>
   calc_R L m done \<noteq> Inl IndexError \<and>
   (initial a0 \<and> reaches L limit a0 n a \<and> pc a = Sync_test \<longrightarrow>
      states (local_actor_critic a) \<noteq> [] \<and> next_states (local_actor_critic a) \<noteq> [] \<and>
      (\<exists>Rs. calc_R L (local_actor_critic a) (ep_done a) = Inr Rs))"
proof -
  have empty: "states m = [] \<or> next_states m = [] \<longrightarrow>
      calc_R L m done = Inl RuntimeError \<and> calc_loss L m done = Inl RuntimeError"
    by (auto simp: calc_loss_def calc_R_RuntimeError)
  have some: "\<exists>Rs. calc_R L m' d = Inr Rs"
    if "states m' \<noteq> []" and "next_states m' \<noteq> []" for m' d
    using calc_R_discounted [OF that(1) bootstrap_value [OF that(2)]] by blast
  have never: "calc_R L m done \<noteq> Inl IndexError"
  proof (cases "states m = [] \<or> next_states m = []")
    case True
    then show ?thesis by (simp add: calc_R_RuntimeError)
  next
    case False
    with some [of m "done"] show ?thesis by auto
  qed
  have "states (local_actor_critic a) \<noteq> [] \<and> next_states (local_actor_critic a) \<noteq> []"
    if "initial a0" and "reaches L limit a0 n a" and "pc a = Sync_test"
  proof -
    from that have "segment_inv n a" by (simp add: reaches_segment_inv)
    with that(3) show ?thesis
      by (auto simp: segment_inv_def buffers_equal_def Let_def)
  qed
  with empty some never show ?thesis by blast
qed

text \<open>
  The constructor's empty buffer raises in the forward pass; the buffer of the
  instance and the worker's buffer after its first transition do not raise.
\<close>

theorem calc_R_needs_transition_witness:
  "states (init_actor_critic (1 / 2) [] :: (nat, nat) actor_critic) = [] \<and>
   calc_R example_lib (init_actor_critic (1 / 2) []) True = Inl RuntimeError \<and>
   calc_loss example_lib (init_actor_critic (1 / 2) []) True = Inl RuntimeError \<and>
   states example_model \<noteq> [] \<and> next_states example_model \<noteq> [] \<and>
   (\<exists>Rs. calc_R example_lib example_model True = Inr Rs) \<and>
   initial example_agent \<and>
   reaches example_lib N_GAMES example_agent 1 (run_steps example_lib N_GAMES 2 example_agent) \<and>
   pc (run_steps example_lib N_GAMES 2 example_agent) = Sync_test \<and>
   states (local_actor_critic (run_steps example_lib N_GAMES 2 example_agent)) \<noteq> [] \<and>
   next_states (local_actor_critic (run_steps example_lib N_GAMES 2 example_agent)) \<noteq> []"
proof -
  let ?e = "init_actor_critic (1 / 2) [] :: (nat, nat) actor_critic"
  let ?a = "run_steps example_lib N_GAMES 2 example_agent"
  have e: "states ?e = []"
    by (simp add: init_actor_critic_def)
  have m: "states example_model \<noteq> []" "next_states example_model \<noteq> []"
    by (simp_all add: example_model_def)
  have i: "initial example_agent"
    by (simp add: initial_def example_agent_def init_actor_critic_def)
  have c: "count_steps example_lib N_GAMES 2 example_agent 0 = 1"
    by (simp add: example_defs ep_steps_after_def eval_nat_numeral Let_def)
  have r: "reaches example_lib N_GAMES example_agent 1 ?a"
    using reaches_count_steps [OF reaches_start, of example_lib N_GAMES example_agent 2]
    by (simp only: c)
  have p: "pc ?a = Sync_test"
    by (simp add: example_defs eval_nat_numeral Let_def)
  from calc_R_needs_transition [of ?e example_lib True example_agent N_GAMES 1 ?a]
    calc_R_needs_transition [of example_model example_lib True example_agent N_GAMES 1 ?a]
    e m i r p
  show ?thesis by simp
qed

text \<open>
  Claim C5. A synchronization whose loss is computed sets the gradient slot of
  each shared parameter to the gradient of the local parameter at the same
  position, whatever the slot held and without touching the data; the optimizer
  then steps on the parameters with these slots; the local model then takes the
  data of the stepped shared parameters, so that local and shared data agree; and
  the four buffers are emptied. The library is assumed to keep the number of
  parameters. At the test of line 165 with a synchronization due, this is the
  move of the worker.
\<close>

theorem sync_sequence:
  assumes loss: "calc_loss L (local_actor_critic a) (ep_done a) = Inr loss"
    and zg: "zero_grad L (parameters (global_actor_critic a)) (store a) = (gp0, h1)"
    and bw: "backward L (local_actor_critic a) (ep_done a) h1 = (lp, h2)"
    and os: "optimizer_step L (push_grads lp gp0) h2 = (gp2, h3)"
    and len: "length gp2 = length lp"
  shows "length (push_grads lp gp0) = length gp0 \<and>
         (\<forall>i. i < length lp \<and> i < length gp0 \<longrightarrow>
            grad (push_grads lp gp0 ! i) = grad (lp ! i) \<and>
            data (push_grads lp gp0 ! i) = data (gp0 ! i)) \<and>
         (\<exists>a'. sync L a = Inr a' \<and>
            parameters (global_actor_critic a') = gp2 \<and> store a' = h3 \<and>
            map data (parameters (local_actor_critic a')) =
              map data (parameters (global_actor_critic a')) \<and>
            map grad (parameters (local_actor_critic a')) = map grad lp \<and>
            states (local_actor_critic a') = [] \<and> actions (local_actor_critic a') = [] \<and>
            rewards (local_actor_critic a') = [] \<and> next_states (local_actor_critic a') = [] \<and>
            (pc a = Sync_test \<and> (t_step a mod T_MAX = 0 \<or> ep_done a) \<longrightarrow>
               step L limit a =
                 a'\<lparr>t_step := t_step a + 1, state := next_state a, pc := While_not_done\<rparr>))"
proof -
  let ?g = "(global_actor_critic a)\<lparr>parameters := gp2\<rparr>"
  let ?l = "(local_actor_critic a)\<lparr>parameters := lp\<rparr>"
  from len have "length (state_dict ?g) = length (parameters ?l)"
    by (simp add: state_dict_def)
  then obtain l' where l': "load_state_dict ?l (state_dict ?g) = Inr l'"
    by (simp add: load_state_dict_def)
  let ?a' = "a\<lparr>local_actor_critic := clear_memory l', global_actor_critic := ?g, store := h3\<rparr>"
  have s: "sync L a = Inr ?a'"
    by (simp add: sync_def loss zg bw os l')
  note d = load_state_dict_data [OF l']
  have pull: "map data (parameters (local_actor_critic ?a')) =
              map data (parameters (global_actor_critic ?a'))"
    using d(1) by (simp add: clear_memory_def state_dict_def)
  have grads: "map grad (parameters (local_actor_critic ?a')) = map grad lp"
    using d(2) by (simp add: clear_memory_def)
  have cleared: "states (local_actor_critic ?a') = []" "actions (local_actor_critic ?a') = []"
    "rewards (local_actor_critic ?a') = []" "next_states (local_actor_critic ?a') = []"
    by (simp_all add: clear_memory_def)
  have st: "pc a = Sync_test \<and> (t_step a mod T_MAX = 0 \<or> ep_done a) \<longrightarrow>
      step L limit a = ?a'\<lparr>t_step := t_step a + 1, state := next_state a, pc := While_not_done\<rparr>"
    by (auto simp: step_def s)
  have push: "\<forall>i. i < length lp \<and> i < length gp0 \<longrightarrow>
            grad (push_grads lp gp0 ! i) = grad (lp ! i) \<and>
            data (push_grads lp gp0 ! i) = data (gp0 ! i)"
    by (simp add: push_grads_nth)
  have "sync L a = Inr ?a' \<and>
            parameters (global_actor_critic ?a') = gp2 \<and> store ?a' = h3 \<and>
            map data (parameters (local_actor_critic ?a')) =
              map data (parameters (global_actor_critic ?a')) \<and>
            map grad (parameters (local_actor_critic ?a')) = map grad lp \<and>
            states (local_actor_critic ?a') = [] \<and> actions (local_actor_critic ?a') = [] \<and>
            rewards (local_actor_critic ?a') = [] \<and> next_states (local_actor_critic ?a') = [] \<and>
            (pc a = Sync_test \<and> (t_step a mod T_MAX = 0 \<or> ep_done a) \<longrightarrow>
               step L limit a =
                 ?a'\<lparr>t_step := t_step a + 1, state := next_state a, pc := While_not_done\<rparr>)"
    using s pull grads cleared st by simp
  then have "\<exists>a'. sync L a = Inr a' \<and>
            parameters (global_actor_critic a') = gp2 \<and> store a' = h3 \<and>
            map data (parameters (local_actor_critic a')) =
              map data (parameters (global_actor_critic a')) \<and>
            map grad (parameters (local_actor_critic a')) = map grad lp \<and>
            states (local_actor_critic a') = [] \<and> actions (local_actor_critic a') = [] \<and>
            rewards (local_actor_critic a') = [] \<and> next_states (local_actor_critic a') = [] \<and>
            (pc a = Sync_test \<and> (t_step a mod T_MAX = 0 \<or> ep_done a) \<longrightarrow>
               step L limit a =
                 a'\<lparr>t_step := t_step a + 1, state := next_state a, pc := While_not_done\<rparr>)"
    by (rule exI)
  with push push_grads_length [of lp gp0] show ?thesis by blast
qed

text \<open>
  The worker of the instance at the end of its first episode: the shared slot
  held 7, is emptied by \<open>zero_grad\<close> and receives the local gradient 0; the
  optimizer moves the shared data to 1, and the local model takes it.
\<close>

theorem sync_sequence_witness:
  "pc (run_steps example_lib N_GAMES 4 example_agent) = Sync_test \<and>
   ep_done (run_steps example_lib N_GAMES 4 example_agent) \<and>
   parameters (local_actor_critic (run_steps example_lib N_GAMES 4 example_agent)) =
     [\<lparr>data = 0, grad = None\<rparr>] \<and>
   parameters (global_actor_critic (run_steps example_lib N_GAMES 4 example_agent)) =
     [\<lparr>data = 0, grad = Some 7\<rparr>] \<and>
   calc_loss example_lib (local_actor_critic (run_steps example_lib N_GAMES 4 example_agent))
     (ep_done (run_steps example_lib N_GAMES 4 example_agent)) =
       Inr (Fin ((9 / 4 - ln (1 / 2) * 3 / 2) / 2)) \<and>
   push_grads [\<lparr>data = 0 :: nat, grad = Some 0\<rparr>] [\<lparr>data = 0, grad = None\<rparr>] =
     [\<lparr>data = 0, grad = Some 0\<rparr>] \<and>
   (\<exists>a'. sync example_lib (run_steps example_lib N_GAMES 4 example_agent) = Inr a' \<and>
      parameters (global_actor_critic a') = [\<lparr>data = 1, grad = Some 0\<rparr>] \<and>
      parameters (local_actor_critic a') = [\<lparr>data = 1, grad = Some 0\<rparr>] \<and>
      states (local_actor_critic a') = [] \<and> next_states (local_actor_critic a') = [] \<and>
      step example_lib N_GAMES (run_steps example_lib N_GAMES 4 example_agent) =
        a'\<lparr>t_step := 3, state := 2, pc := While_not_done\<rparr>)"
proof -
  let ?a = "run_steps example_lib N_GAMES 4 example_agent"
  have p: "pc ?a = Sync_test" "ep_done ?a" "t_step ?a = 2" "next_state ?a = 2"
    "parameters (local_actor_critic ?a) = [\<lparr>data = 0, grad = None\<rparr>]"
    "parameters (global_actor_critic ?a) = [\<lparr>data = 0, grad = Some 7\<rparr>]"
    by (simp_all add: example_defs eval_nat_numeral Let_def)
  have loss: "calc_loss example_lib (local_actor_critic ?a) (ep_done ?a) =
      Inr (Fin ((9 / 4 - ln (1 / 2) * 3 / 2) / 2))"
    by (simp add: example_defs eval_nat_numeral Let_def)
  have zg: "zero_grad example_lib (parameters (global_actor_critic ?a)) (store ?a) =
      ([\<lparr>data = 0, grad = None\<rparr>], ())"
    unfolding p by (simp add: example_lib_def)
  have bw: "backward example_lib (local_actor_critic ?a) (ep_done ?a) () =
      ([\<lparr>data = 0, grad = Some 0\<rparr>], ())"
    using p(5) by (simp add: example_lib_def)
  have pg: "push_grads [\<lparr>data = 0 :: nat, grad = Some 0\<rparr>] [\<lparr>data = 0, grad = None\<rparr>] =
      [\<lparr>data = 0, grad = Some 0\<rparr>]"
    by simp
  have os: "optimizer_step example_lib
      (push_grads [\<lparr>data = 0, grad = Some 0\<rparr>] [\<lparr>data = 0, grad = None\<rparr>]) () =
      ([\<lparr>data = 1, grad = Some 0\<rparr>], ())"
    by (simp add: example_lib_def)
  have len: "length [\<lparr>data = 1 :: nat, grad = Some 0\<rparr>] = length [\<lparr>data = 0 :: nat, grad = Some 0\<rparr>]"
    by simp
  from sync_sequence [OF loss zg bw os len, of N_GAMES]
  obtain a' where a': "sync example_lib ?a = Inr a'"
    "parameters (global_actor_critic a') = [\<lparr>data = 1, grad = Some 0\<rparr>]"
    "map data (parameters (local_actor_critic a')) = map data (parameters (global_actor_critic a'))"
    "map grad (parameters (local_actor_critic a')) = map grad [\<lparr>data = 0 :: nat, grad = Some 0\<rparr>]"
    "states (local_actor_critic a') = []" "next_states (local_actor_critic a') = []"
    "pc ?a = Sync_test \<and> (t_step ?a mod T_MAX = 0 \<or> ep_done ?a) \<longrightarrow>
       step example_lib N_GAMES ?a = a'\<lparr>t_step := t_step ?a + 1, state := next_state ?a, pc := While_not_done\<rparr>"
    by blast
  from a'(2,3,4) have l: "parameters (local_actor_critic a') = [\<lparr>data = 1, grad = Some 0\<rparr>]"
    by (cases "parameters (local_actor_critic a')") auto
  from a'(7) p have st: "step example_lib N_GAMES ?a = a'\<lparr>t_step := 3, state := 2, pc := While_not_done\<rparr>"
    by simp
  from a'(1,2,5,6) l st have "\<exists>a'. sync example_lib ?a = Inr a' \<and>
      parameters (global_actor_critic a') = [\<lparr>data = 1, grad = Some 0\<rparr>] \<and>
      parameters (local_actor_critic a') = [\<lparr>data = 1, grad = Some 0\<rparr>] \<and>
      states (local_actor_critic a') = [] \<and> next_states (local_actor_critic a') = [] \<and>
      step example_lib N_GAMES ?a = a'\<lparr>t_step := 3, state := 2, pc := While_not_done\<rparr>"
    by blast
  with p(1,2,5,6) loss pg show ?thesis by blast
qed

subsection \<open>The counter\<close>










section \<open>Properties of the counter under concurrent workers\<close>

text \<open>The pending increments of a list of workers when one of them moves.\<close>

lemma sum_list_pending_update:
  assumes "i < length ws"
  shows "int (sum_list (map pending (ws[i := w]))) =
           int (sum_list (map pending ws)) - int (pending (ws ! i)) + int (pending w)"
  using assms
proof (induction ws arbitrary: i)
  case Nil
  then show ?case by simp
next
  case (Cons x ws)
  then show ?case by (cases i) simp_all
qed

lemma pending_le_sum_list:
  "i < length ws \<Longrightarrow> pending (ws ! i) \<le> sum_list (map pending ws)"
proof (induction ws arbitrary: i)
  case Nil
  then show ?case by simp
next
  case (Cons x ws)
  then show ?case by (cases i) (simp_all add: trans_le_add2)
qed

lemma lock_inv_start: "lock_inv c0 (sum_list ks) (start c0 ks)"
proof -
  have "map pending (map (\<lambda>k. \<lparr>lpc = Acquire, todo = k\<rparr>) ks) = ks"
    by (induction ks) (simp_all add: pending_def)
  then show ?thesis by (simp add: lock_inv_def start_def)
qed

lemma lock_inv_update:
  assumes inv: "lock_inv c0 tot s" and i: "i < length (workers s)"
    and others: "\<And>j. j < length (workers s) \<Longrightarrow> j \<noteq> i \<Longrightarrow> lpc (workers s ! j) = Acquire"
    and past: "lpc w' \<noteq> Acquire \<Longrightarrow> l' = Some i \<and> 0 < todo w'"
    and freed: "lpc w' = Acquire \<Longrightarrow> l' = None"
    and fresh: "\<And>v. lpc w' = Write v \<Longrightarrow> v = c'"
    and sum: "c' + int (pending w') = counter s + int (pending (workers s ! i))"
  shows "lock_inv c0 tot (s\<lparr>counter := c', lock := l', workers := (workers s)[i := w']\<rparr>)"
proof -
  let ?ws = "(workers s)[i := w']"
  have nth: "?ws ! j = (if j = i then w' else workers s ! j)" if "j < length (workers s)" for j
    using that by (simp add: nth_list_update)
  have c1: "lpc (?ws ! j) \<noteq> Acquire \<longrightarrow> l' = Some j \<and> 0 < todo (?ws ! j)"
    if "j < length (workers s)" for j
  proof (cases "j = i")
    case True
    with that past show ?thesis by (simp add: nth)
  next
    case False
    with that others show ?thesis by (simp add: nth)
  qed
  have c2: "j < length (workers s) \<and> lpc (?ws ! j) \<noteq> Acquire" if "l' = Some j" for j
  proof -
    from that freed have na: "lpc w' \<noteq> Acquire" by auto
    with past that have "j = i" by simp
    with i na show ?thesis by (simp add: nth)
  qed
  have c3: "v = c'" if "j < length (workers s)" and "lpc (?ws ! j) = Write v" for j v
  proof (cases "j = i")
    case True
    with that fresh show ?thesis by (simp add: nth)
  next
    case False
    with that others [of j] show ?thesis by (simp add: nth)
  qed
  from inv have "counter s + int (sum_list (map pending (workers s))) = c0 + int tot"
    unfolding lock_inv_def by blast
  with sum sum_list_pending_update [OF i, of w']
  have c4: "c' + int (sum_list (map pending ?ws)) = c0 + int tot" by linarith
  show ?thesis
    unfolding lock_inv_def
  proof (intro conjI allI impI)
    fix j
    assume "j < length (workers (s\<lparr>counter := c', lock := l', workers := ?ws\<rparr>))"
      and "lpc (workers (s\<lparr>counter := c', lock := l', workers := ?ws\<rparr>) ! j) \<noteq> Acquire"
    then show "lock (s\<lparr>counter := c', lock := l', workers := ?ws\<rparr>) = Some j"
      and "0 < todo (workers (s\<lparr>counter := c', lock := l', workers := ?ws\<rparr>) ! j)"
      using c1 [of j] by simp_all
  next
    fix j
    assume "lock (s\<lparr>counter := c', lock := l', workers := ?ws\<rparr>) = Some j"
    then show "j < length (workers (s\<lparr>counter := c', lock := l', workers := ?ws\<rparr>))"
      and "lpc (workers (s\<lparr>counter := c', lock := l', workers := ?ws\<rparr>) ! j) \<noteq> Acquire"
      using c2 [of j] by simp_all
  next
    fix j v
    assume "j < length (workers (s\<lparr>counter := c', lock := l', workers := ?ws\<rparr>))"
      and "lpc (workers (s\<lparr>counter := c', lock := l', workers := ?ws\<rparr>) ! j) = Write v"
    then show "v = counter (s\<lparr>counter := c', lock := l', workers := ?ws\<rparr>)"
      using c3 [of j v] by simp
  next
    show "counter (s\<lparr>counter := c', lock := l', workers := ?ws\<rparr>) +
        int (sum_list (map pending (workers (s\<lparr>counter := c', lock := l', workers := ?ws\<rparr>)))) =
        c0 + int tot"
      using c4 by simp
  qed
qed

lemma lock_inv_step:
  assumes inv: "lock_inv c0 tot s" and lo: "- (2 ^ 31) \<le> c0" and hi: "c0 + int tot < 2 ^ 31"
    and c: "c0 \<le> counter s"
  shows "lock_inv c0 tot (inc_step True i s) \<and> counter s \<le> counter (inc_step True i s)"
proof (cases "i < length (workers s)")
  case False
  with inv show ?thesis by (simp add: inc_step_def)
next
  case i: True
  let ?w = "workers s ! i"
  from inv have held: "\<And>j. j < length (workers s) \<Longrightarrow> lpc (workers s ! j) \<noteq> Acquire \<Longrightarrow>
      lock s = Some j \<and> 0 < todo (workers s ! j)"
    unfolding lock_inv_def by blast
  from inv have holder: "\<And>j. lock s = Some j \<Longrightarrow> j < length (workers s) \<and> lpc (workers s ! j) \<noteq> Acquire"
    unfolding lock_inv_def by blast
  from inv have read: "\<And>j v. j < length (workers s) \<Longrightarrow> lpc (workers s ! j) = Write v \<Longrightarrow> v = counter s"
    unfolding lock_inv_def by blast
  from inv have total: "counter s + int (sum_list (map pending (workers s))) = c0 + int tot"
    unfolding lock_inv_def by blast
  have others: "lpc (workers s ! j) = Acquire"
    if "lock s = None \<or> lock s = Some i" and "j < length (workers s)" and "j \<noteq> i" for j
  proof (rule ccontr)
    assume "lpc (workers s ! j) \<noteq> Acquire"
    with held that(2) have "lock s = Some j" by blast
    with that(1,3) show False by auto
  qed
  show ?thesis
  proof (cases "lpc ?w")
    case Acquire
    show ?thesis
    proof (cases "todo ?w = 0 \<or> lock s \<noteq> None")
      case True
      with Acquire i have "inc_step True i s = s" by (simp add: inc_step_def Let_def)
      with inv show ?thesis by simp
    next
      case False
      then have free: "lock s = None" and td: "0 < todo ?w" by simp_all
      let ?w' = "?w\<lparr>lpc := Read\<rparr>"
      from Acquire False i
      have st: "inc_step True i s = s\<lparr>counter := counter s, lock := Some i, workers := (workers s)[i := ?w']\<rparr>"
        by (simp add: inc_step_def Let_def)
      have "lock_inv c0 tot (s\<lparr>counter := counter s, lock := Some i, workers := (workers s)[i := ?w']\<rparr>)"
      proof (rule lock_inv_update [OF inv i])
        show "lpc (workers s ! j) = Acquire" if "j < length (workers s)" "j \<noteq> i" for j
          using others free that by blast
        show "Some i = Some i \<and> 0 < todo ?w'" using td by simp
        show "Some i = None" if "lpc ?w' = Acquire" using that by simp
        show "v = counter s" if "lpc ?w' = Write v" for v using that by simp
        show "counter s + int (pending ?w') = counter s + int (pending ?w)"
          using Acquire by (simp add: pending_def)
      qed
      then show ?thesis by (simp only: st) simp
    qed
  next
    case Read
    let ?w' = "?w\<lparr>lpc := Write (counter s)\<rparr>"
    from held [OF i] Read have li: "lock s = Some i" and td: "0 < todo ?w" by simp_all
    from Read i
    have st: "inc_step True i s = s\<lparr>counter := counter s, lock := lock s, workers := (workers s)[i := ?w']\<rparr>"
      by (simp add: inc_step_def Let_def)
    have "lock_inv c0 tot (s\<lparr>counter := counter s, lock := lock s, workers := (workers s)[i := ?w']\<rparr>)"
    proof (rule lock_inv_update [OF inv i])
      show "lpc (workers s ! j) = Acquire" if "j < length (workers s)" "j \<noteq> i" for j
        using others li that by blast
      show "lock s = Some i \<and> 0 < todo ?w'" using li td by simp
      show "lock s = None" if "lpc ?w' = Acquire" using that by simp
      show "v = counter s" if "lpc ?w' = Write v" for v using that by simp
      show "counter s + int (pending ?w') = counter s + int (pending ?w)"
        using Read by (simp add: pending_def)
    qed
    then show ?thesis by (simp only: st) simp
  next
    case (Write v)
    let ?w' = "?w\<lparr>lpc := Release\<rparr>"
    from held [OF i] Write have li: "lock s = Some i" and td: "0 < todo ?w" by simp_all
    from read [OF i Write] have v: "v = counter s" .
    have pw: "pending ?w = todo ?w" using Write by (simp add: pending_def)
    have "pending ?w \<le> sum_list (map pending (workers s))"
      using i by (rule pending_le_sum_list)
    with total td pw have up: "counter s + 1 \<le> c0 + int tot" by linarith
    with v c lo hi have w: "wrap32 (v + 1) = counter s + 1"
      by (simp add: wrap32_id)
    from Write i
    have st: "inc_step True i s =
        s\<lparr>counter := counter s + 1, lock := lock s, workers := (workers s)[i := ?w']\<rparr>"
      by (simp add: inc_step_def Let_def w)
    have "lock_inv c0 tot (s\<lparr>counter := counter s + 1, lock := lock s, workers := (workers s)[i := ?w']\<rparr>)"
    proof (rule lock_inv_update [OF inv i])
      show "lpc (workers s ! j) = Acquire" if "j < length (workers s)" "j \<noteq> i" for j
        using others li that by blast
      show "lock s = Some i \<and> 0 < todo ?w'" using li td by simp
      show "lock s = None" if "lpc ?w' = Acquire" using that by simp
      show "u = counter s + 1" if "lpc ?w' = Write u" for u using that by simp
      show "counter s + 1 + int (pending ?w') = counter s + int (pending ?w)"
        using td pw by (simp add: pending_def)
    qed
    then show ?thesis by (simp only: st) simp
  next
    case Release
    let ?w' = "?w\<lparr>lpc := Acquire, todo := todo ?w - 1\<rparr>"
    from held [OF i] Release have li: "lock s = Some i" and td: "0 < todo ?w" by simp_all
    from Release i
    have st: "inc_step True i s = s\<lparr>counter := counter s, lock := None, workers := (workers s)[i := ?w']\<rparr>"
      by (simp add: inc_step_def Let_def)
    have "lock_inv c0 tot (s\<lparr>counter := counter s, lock := None, workers := (workers s)[i := ?w']\<rparr>)"
    proof (rule lock_inv_update [OF inv i])
      show "lpc (workers s ! j) = Acquire" if "j < length (workers s)" "j \<noteq> i" for j
        using others li that by blast
      show "None = Some i \<and> 0 < todo ?w'" if "lpc ?w' \<noteq> Acquire" using that by simp
      show "None = None" by simp
      show "v = counter s" if "lpc ?w' = Write v" for v using that by simp
      show "counter s + int (pending ?w') = counter s + int (pending ?w)"
        using Release by (simp add: pending_def)
    qed
    then show ?thesis by (simp only: st) simp
  qed
qed

lemma run_sched_append:
  "run_sched b (s1 @ s2) s = run_sched b s2 (run_sched b s1 s)"
  by (induction s1 arbitrary: s) simp_all

lemma lock_inv_run:
  assumes lo: "- (2 ^ 31) \<le> c0" and hi: "c0 + int (sum_list ks) < 2 ^ 31"
  shows "lock_inv c0 (sum_list ks) (run_sched True sched (start c0 ks)) \<and>
         c0 \<le> counter (run_sched True sched (start c0 ks))"
proof (induction sched rule: rev_induct)
  case Nil
  have "counter (start c0 ks) = c0" by (simp add: start_def)
  with lock_inv_start [of c0 ks] show ?case by simp
next
  case (snoc i sched)
  let ?s = "run_sched True sched (start c0 ks)"
  from snoc have inv: "lock_inv c0 (sum_list ks) ?s" and c: "c0 \<le> counter ?s" by blast+
  from lock_inv_step [OF inv lo hi c, of i]
  have "lock_inv c0 (sum_list ks) (inc_step True i ?s)" and "counter ?s \<le> counter (inc_step True i ?s)"
    by blast+
  with c show ?case by (simp add: run_sched_append)
qed

lemma all_done_pending:
  "all_done s \<Longrightarrow> sum_list (map pending (workers s)) = 0"
  by (simp add: all_done_def list_all_iff pending_def)

lemma lock_inv_all_done:
  assumes "lock_inv c0 tot s" and "all_done s"
  shows "counter s = c0 + int tot"
proof -
  from assms(1) have "counter s + int (sum_list (map pending (workers s))) = c0 + int tot"
    unfolding lock_inv_def by blast
  then show ?thesis by (simp only: all_done_pending [OF assms(2)] of_nat_0 add_0_right)
qed

lemma lock_inv_progress:
  assumes inv: "lock_inv c0 tot s" and nd: "\<not> all_done s"
  shows "\<exists>i < length (workers s). inc_step True i s \<noteq> s"
proof (cases "lock s")
  case None
  from inv have held: "\<And>j. j < length (workers s) \<Longrightarrow> lpc (workers s ! j) \<noteq> Acquire \<Longrightarrow>
      lock s = Some j"
    unfolding lock_inv_def by blast
  from nd obtain j where j: "j < length (workers s)"
    and nj: "\<not> (lpc (workers s ! j) = Acquire \<and> todo (workers s ! j) = 0)"
    by (auto simp: all_done_def list_all_length)
  from held [OF j] None have a: "lpc (workers s ! j) = Acquire" by auto
  with nj have td: "0 < todo (workers s ! j)" by simp
  from j td a None have "lock (inc_step True j s) = Some j"
    by (simp add: inc_step_def Let_def)
  with None have "inc_step True j s \<noteq> s" by auto
  with j show ?thesis by blast
next
  case (Some i)
  from inv Some have i: "i < length (workers s)" and na: "lpc (workers s ! i) \<noteq> Acquire"
    unfolding lock_inv_def by blast+
  have "lpc (workers (inc_step True i s) ! i) \<noteq> lpc (workers s ! i)"
    using i na by (cases "lpc (workers s ! i)") (simp_all add: inc_step_def Let_def)
  then have "inc_step True i s \<noteq> s" by auto
  with i show ?thesis by blast
qed

lemmas lock_defs = inc_step_def start_def all_done_def wrap32_def Let_def

text \<open>
  Without the lock an update is lost: two workers with one increment each, both
  reading 0 before either writes, leave the counter at 1.
\<close>

lemma lost_update_without_lock:
  "all_done (run_sched False [0, 1, 0, 1, 0, 1, 0, 1] (start 0 [1, 1])) \<and>
   counter (run_sched False [0, 1, 0, 1, 0, 1, 0, 1] (start 0 [1, 1])) = 1"
  by (simp add: lock_defs)

text \<open>
  Claim C3. Workers that increment the counter under its lock, in any
  interleaving of their moves: no move lowers the counter, which stays between
  its initial value and that value plus the increments to issue; when all
  workers have issued theirs, the counter is the initial value plus their
  number, so plus N for N workers with one increment each, and 2000 from 0 for
  two workers with 1000 each; and as long as a worker has an increment to issue,
  some worker can move. The counter is assumed to stay below \<open>2 ^ 31\<close>.
\<close>

theorem no_lost_update:
  assumes "- (2 ^ 31) \<le> c0" and "c0 + int (sum_list ks) < 2 ^ 31"
  shows "counter (run_sched True sched (start c0 ks)) \<le>
           counter (run_sched True (sched @ [i]) (start c0 ks)) \<and>
         c0 \<le> counter (run_sched True sched (start c0 ks)) \<and>
         counter (run_sched True sched (start c0 ks)) \<le> c0 + int (sum_list ks) \<and>
         (all_done (run_sched True sched (start c0 ks)) \<longrightarrow>
            counter (run_sched True sched (start c0 ks)) = c0 + int (sum_list ks)) \<and>
         (ks = replicate N 1 \<and> all_done (run_sched True sched (start c0 ks)) \<longrightarrow>
            counter (run_sched True sched (start c0 ks)) = c0 + int N) \<and>
         (c0 = 0 \<and> ks = [1000, 1000] \<and> all_done (run_sched True sched (start c0 ks)) \<longrightarrow>
            counter (run_sched True sched (start c0 ks)) = 2000) \<and>
         (\<not> all_done (run_sched True sched (start c0 ks)) \<longrightarrow>
            (\<exists>j < length (workers (run_sched True sched (start c0 ks))).
               inc_step True j (run_sched True sched (start c0 ks)) \<noteq>
               run_sched True sched (start c0 ks)))"
proof -
  let ?s = "run_sched True sched (start c0 ks)"
  from lock_inv_run [OF assms, of sched]
  have inv: "lock_inv c0 (sum_list ks) ?s" and lo: "c0 \<le> counter ?s"
    by blast+
  from lock_inv_step [OF inv assms lo, of i]
  have mono: "counter ?s \<le> counter (run_sched True (sched @ [i]) (start c0 ks))"
    by (simp add: run_sched_append)
  from inv have "counter ?s + int (sum_list (map pending (workers ?s))) = c0 + int (sum_list ks)"
    unfolding lock_inv_def by blast
  then have up: "counter ?s \<le> c0 + int (sum_list ks)" by linarith
  have fin: "counter ?s = c0 + int (sum_list ks)" if "all_done ?s"
    using inv that by (rule lock_inv_all_done)
  have each: "counter ?s = c0 + int N" if "ks = replicate N 1" and "all_done ?s"
    using fin [OF that(2)] that(1) by (simp add: sum_list_replicate)
  have two: "counter ?s = 2000" if "c0 = 0" and "ks = [1000, 1000]" and "all_done ?s"
    using fin [OF that(3)] that(1,2) by simp
  have prog: "\<exists>j < length (workers ?s). inc_step True j ?s \<noteq> ?s" if "\<not> all_done ?s"
    using inv that by (rule lock_inv_progress)
  from mono lo up fin each two prog show ?thesis by blast
qed

text \<open>
  Two workers with one increment each: the second waits while the first holds
  the lock, and the counter ends at 2.
\<close>

theorem no_lost_update_witness:
  "- (2 ^ 31) \<le> (0 :: int) \<and> 0 + int (sum_list [1, 1]) < 2 ^ 31 \<and>
   [1, 1] = replicate 2 (1 :: nat) \<and>
   inc_step True 1 (run_sched True [0] (start 0 [1, 1])) = run_sched True [0] (start 0 [1, 1]) \<and>
   \<not> all_done (run_sched True [0] (start 0 [1, 1])) \<and>
   inc_step True 0 (run_sched True [0] (start 0 [1, 1])) \<noteq> run_sched True [0] (start 0 [1, 1]) \<and>
   counter (run_sched True [0, 1, 0, 1] (start 0 [1, 1])) = 0 \<and>
   counter (run_sched True [0, 1, 0, 1, 0] (start 0 [1, 1])) = 1 \<and>
   all_done (run_sched True [0, 1, 0, 1, 0, 0, 1, 1, 1, 1] (start 0 [1, 1])) \<and>
   counter (run_sched True [0, 1, 0, 1, 0, 0, 1, 1, 1, 1] (start 0 [1, 1])) = 2"
proof -
  have b: "- (2 ^ 31) \<le> (0 :: int)" "0 + int (sum_list [1, 1]) < 2 ^ 31"
    by simp_all
  have r: "[1, 1] = replicate 2 (1 :: nat)"
    by (simp add: eval_nat_numeral)
  have w: "inc_step True 1 (run_sched True [0] (start 0 [1, 1])) = run_sched True [0] (start 0 [1, 1])"
    by (simp add: lock_defs)
  have n: "\<not> all_done (run_sched True [0] (start 0 [1, 1]))"
    by (simp add: lock_defs)
  have m: "inc_step True 0 (run_sched True [0] (start 0 [1, 1])) \<noteq> run_sched True [0] (start 0 [1, 1])"
    by (simp add: lock_defs)
  have c: "counter (run_sched True [0, 1, 0, 1] (start 0 [1, 1])) = 0"
    "counter (run_sched True [0, 1, 0, 1, 0] (start 0 [1, 1])) = 1"
    by (simp_all add: lock_defs)
  have d: "all_done (run_sched True [0, 1, 0, 1, 0, 0, 1, 1, 1, 1] (start 0 [1, 1]))"
    by (simp add: lock_defs)
  from no_lost_update [OF b, of "[0, 1, 0, 1, 0, 0, 1, 1, 1, 1]" 0 2] d
  have "counter (run_sched True [0, 1, 0, 1, 0, 0, 1, 1, 1, 1] (start 0 [1, 1])) = 0 + int (sum_list [1, 1])"
    by blast
  then have "counter (run_sched True [0, 1, 0, 1, 0, 0, 1, 1, 1, 1] (start 0 [1, 1])) = 2"
    by simp
  with b r w n m c d show ?thesis by blast
qed

end
